theory Spec2Isabelle
  imports Complex_Main "HOL-Library.AList"
begin

section \<open>Data model\<close>

text \<open>
  Strings are byte lists: a JavaScript string is read as its UTF-8 encoding. All string
  operations of the program that are modelled here (\<^verbatim>\<open>startsWith('@')\<close>, \<^verbatim>\<open>split('/')\<close>,
  the two regular expressions of \<^verbatim>\<open>createSpdxRef\<close>, \<^verbatim>\<open>encodeURIComponent\<close>) act on
  ASCII delimiters and treat every non-ASCII character as a whole, so they commute with
  the encoding.

  A JavaScript \<^verbatim>\<open>Map\<close> is an association list in insertion order with distinct keys:
  \<^verbatim>\<open>m.get(k)\<close> is \<^term>\<open>map_of m k\<close>, \<^verbatim>\<open>m.has(k)\<close> is \<^term>\<open>k \<in> fst ` set m\<close>, and
  \<^verbatim>\<open>m.set(k, v)\<close> is \<^term>\<open>AList.update k v m\<close>, which overwrites in place or appends.
\<close>

text \<open>\<^verbatim>\<open>scanner/types.ts\<close>: \<^verbatim>\<open>DependencyNode\<close>, \<^verbatim>\<open>PackageInfo\<close>, \<^verbatim>\<open>DependencyTree\<close>.
  The optional \<^verbatim>\<open>dependencies\<close> map of a node is an optional list of entries.\<close>

datatype DependencyNode =
  DependencyNode (dn_name: string) (dn_version: string) (dn_resolved: string)
    (dn_dependencies: "(string \<times> DependencyNode) list option")

record PackageInfo =
  pi_name :: string
  pi_version :: string
  pi_isDevDependency :: bool
  pi_isDirect :: bool

record DependencyTree =
  dt_name :: string
  dt_version :: string
  dt_dependencies :: "(string \<times> DependencyNode) list"
  dt_packages :: "PackageInfo list"

text \<open>\<^verbatim>\<open>graph/builder.ts\<close>: \<^verbatim>\<open>GraphNode\<close> and \<^verbatim>\<open>DependencyGraph\<close>.\<close>

record GraphNode =
  gn_id :: string
  gn_name :: string
  gn_version :: string
  gn_depth :: nat
  gn_parent :: "string option"
  gn_children :: "string list"
  gn_vulnerabilities :: nat
  gn_isDevDependency :: bool

record DependencyGraph =
  nodes :: "(string \<times> GraphNode) list"
  edges :: "(string \<times> string) list"
  roots :: "string list"

section \<open>Graph builder\<close>

text \<open>The template literal \<^verbatim>\<open>`${name}@${version}`\<close>, written out in \<^verbatim>\<open>builder.ts\<close>
  and named \<^verbatim>\<open>createKey\<close> in \<^verbatim>\<open>generator.ts\<close>.\<close>

definition createKey :: "string \<Rightarrow> string \<Rightarrow> string" where
  "createKey name version = name @ ''@'' @ version"

text \<open>
  The body of \<^verbatim>\<open>buildNodeRecursive\<close> before its loop, in its two statements.
  \<open>addNode\<close> (lines 46 to 57): create the node if the table has no entry for \<open>nodeId\<close>.
  \<open>addEdge\<close> (lines 60 to 66): if \<open>parent\<close> is truthy (defined and not the empty
  string), push the edge and, if the parent is in the table and does not list \<open>nodeId\<close>
  yet, push \<open>nodeId\<close> on the parent's children.
\<close>

definition addNode ::
  "DependencyNode \<Rightarrow> string \<Rightarrow> nat \<Rightarrow> string option \<Rightarrow> DependencyGraph \<Rightarrow> bool \<Rightarrow> DependencyGraph"
where
  "addNode dep nodeId depth parent g isDevDependency =
     (if nodeId \<in> fst ` set (nodes g) then g
      else g\<lparr>nodes := AList.update nodeId
                 \<lparr>gn_id = nodeId, gn_name = dn_name dep, gn_version = dn_version dep,
                  gn_depth = depth, gn_parent = parent, gn_children = [],
                  gn_vulnerabilities = 0, gn_isDevDependency = isDevDependency\<rparr>
                 (nodes g)\<rparr>)"

definition addEdge :: "string option \<Rightarrow> string \<Rightarrow> DependencyGraph \<Rightarrow> DependencyGraph" where
  "addEdge parent nodeId g =
     (case parent of
        None \<Rightarrow> g
      | Some p \<Rightarrow>
          if p = [] then g
          else (case map_of (nodes g) p of
                  None \<Rightarrow> g\<lparr>edges := edges g @ [(p, nodeId)]\<rparr>
                | Some parentNode \<Rightarrow>
                    if nodeId \<in> set (gn_children parentNode)
                    then g\<lparr>edges := edges g @ [(p, nodeId)]\<rparr>
                    else g\<lparr>nodes := AList.update p
                              (parentNode\<lparr>gn_children := gn_children parentNode @ [nodeId]\<rparr>)
                              (nodes g),
                           edges := edges g @ [(p, nodeId)]\<rparr>))"

definition visitNode ::
  "DependencyNode \<Rightarrow> string \<Rightarrow> nat \<Rightarrow> string option \<Rightarrow> DependencyGraph \<Rightarrow> bool \<Rightarrow> DependencyGraph"
where
  "visitNode dep nodeId depth parent g isDevDependency =
     addEdge parent nodeId (addNode dep nodeId depth parent g isDevDependency)"

text \<open>\<^verbatim>\<open>buildNodeRecursive\<close>; its \<^verbatim>\<open>for\<close> loop over the entries of \<^verbatim>\<open>dep.dependencies\<close> is
  \<open>buildChildren\<close>. A \<^verbatim>\<open>Map\<close> object is truthy even when empty, so only an absent map
  skips the loop.\<close>

fun buildNodeRecursive ::
  "DependencyNode \<Rightarrow> string \<Rightarrow> nat \<Rightarrow> string option \<Rightarrow> DependencyGraph \<Rightarrow> bool \<Rightarrow> DependencyGraph"
and buildChildren ::
  "(string \<times> DependencyNode) list \<Rightarrow> string \<Rightarrow> nat \<Rightarrow> DependencyGraph \<Rightarrow> bool \<Rightarrow> DependencyGraph"
where
  "buildNodeRecursive (DependencyNode name version resolved deps) nodeId depth parent g isDev =
     (let g1 = visitNode (DependencyNode name version resolved deps) nodeId depth parent g isDev
      in case deps of
           None \<Rightarrow> g1
         | Some cs \<Rightarrow> buildChildren cs nodeId depth g1 isDev)"
| "buildChildren [] nodeId depth g isDev = g"
| "buildChildren ((childName, childDep) # rest) nodeId depth g isDev =
     buildChildren rest nodeId depth
       (buildNodeRecursive childDep (createKey childName (dn_version childDep))
          (depth + 1) (Some nodeId) g isDev)
       isDev"

text \<open>\<^verbatim>\<open>buildGraph\<close>; its loop over the top-level entries is \<open>buildRoots\<close>.\<close>

fun buildRoots :: "(string \<times> DependencyNode) list \<Rightarrow> DependencyGraph \<Rightarrow> DependencyGraph" where
  "buildRoots [] g = g"
| "buildRoots ((name, dep) # rest) g =
     (let nodeId = createKey name (dn_version dep)
      in buildRoots rest
           (buildNodeRecursive dep nodeId 0 None (g\<lparr>roots := roots g @ [nodeId]\<rparr>) False))"

definition buildGraph :: "DependencyTree \<Rightarrow> DependencyGraph" where
  "buildGraph depTree =
     buildRoots (dt_dependencies depTree) \<lparr>nodes = [], edges = [], roots = []\<rparr>"

text \<open>
  Auxiliary relation for the frame properties of the builder: every entry of the node
  table of \<open>g\<close> is still in the table of \<open>g'\<close>, unchanged but for children pushed at the
  end of its children list.
\<close>

definition nodesExtend :: "DependencyGraph \<Rightarrow> DependencyGraph \<Rightarrow> bool" where
  "nodesExtend g g' \<longleftrightarrow>
     (\<forall>k old. map_of (nodes g) k = Some old \<longrightarrow>
        (\<exists>extra. map_of (nodes g') k = Some (old\<lparr>gn_children := gn_children old @ extra\<rparr>)))"

text \<open>A small graph used to instantiate the frame property: two roots, no edges yet.\<close>

definition exNodeA :: GraphNode where
  "exNodeA = \<lparr>gn_id = ''a@1'', gn_name = ''a'', gn_version = ''1'', gn_depth = 0,
     gn_parent = None, gn_children = [], gn_vulnerabilities = 0, gn_isDevDependency = False\<rparr>"

definition exNodeB :: GraphNode where
  "exNodeB = \<lparr>gn_id = ''b@2'', gn_name = ''b'', gn_version = ''2'', gn_depth = 0,
     gn_parent = None, gn_children = [], gn_vulnerabilities = 0, gn_isDevDependency = False\<rparr>"

definition exGraph :: DependencyGraph where
  "exGraph = \<lparr>nodes = [(''a@1'', exNodeA), (''b@2'', exNodeB)], edges = [],
     roots = [''a@1'', ''b@2'']\<rparr>"

subsection \<open>Well-formedness of a graph\<close>

text \<open>The ids reachable from some root by following children links.\<close>

inductive_set reachable :: "DependencyGraph \<Rightarrow> string set" for g :: DependencyGraph where
  root: "r \<in> set (roots g) \<Longrightarrow> r \<in> reachable g"
| child: "k \<in> reachable g \<Longrightarrow> map_of (nodes g) k = Some n \<Longrightarrow> c \<in> set (gn_children n)
          \<Longrightarrow> c \<in> reachable g"

text \<open>
  Invariants of the builder. \<open>nodeInv\<close>: keys are distinct, every node is stored under its
  own id, its children list is duplicate-free, and each child is a key of the table and
  the target of a recorded edge from the node. \<open>edgeInv\<close>: every edge joins two keys of the
  table and ends in a reachable node. \<open>visitPre\<close> is what a call of \<open>buildNodeRecursive\<close>
  relies on: a call without parent is for a recorded root, a call with a parent comes from
  a non-empty, recorded and reachable parent id.
\<close>

definition nodeInv :: "DependencyGraph \<Rightarrow> bool" where
  "nodeInv g \<longleftrightarrow>
     distinct (map fst (nodes g)) \<and>
     (\<forall>k n. map_of (nodes g) k = Some n \<longrightarrow>
        gn_id n = k \<and> distinct (gn_children n) \<and>
        (\<forall>c \<in> set (gn_children n). c \<in> fst ` set (nodes g) \<and> (k, c) \<in> set (edges g)))"

definition edgeInv :: "DependencyGraph \<Rightarrow> bool" where
  "edgeInv g \<longleftrightarrow>
     (\<forall>(p, c) \<in> set (edges g).
        p \<in> fst ` set (nodes g) \<and> c \<in> fst ` set (nodes g) \<and> c \<in> reachable g)"

definition visitPre :: "string option \<Rightarrow> string \<Rightarrow> DependencyGraph \<Rightarrow> bool" where
  "visitPre parent nodeId g \<longleftrightarrow>
     (case parent of
        None \<Rightarrow> nodeId \<in> set (roots g)
      | Some p \<Rightarrow> p \<noteq> [] \<and> p \<in> fst ` set (nodes g) \<and> p \<in> reachable g)"

text \<open>The diamond of the builder's unit test, extended by a second root: \<open>package-a\<close> and
  \<open>package-c\<close> both depend on \<open>package-b\<close>.\<close>

definition diamondTree :: DependencyTree where
  "diamondTree = \<lparr>dt_name = ''test-project'', dt_version = ''1.0.0'',
     dt_dependencies =
       [(''package-a'', DependencyNode ''package-a'' ''1.0.0'' []
           (Some [(''package-b'', DependencyNode ''package-b'' ''2.0.0'' [] None)])),
        (''package-c'', DependencyNode ''package-c'' ''1.0.0'' []
           (Some [(''package-b'', DependencyNode ''package-b'' ''2.0.0'' [] None)]))],
     dt_packages =
       [\<lparr>pi_name = ''package-a'', pi_version = ''1.0.0'', pi_isDevDependency = False, pi_isDirect = True\<rparr>,
        \<lparr>pi_name = ''package-c'', pi_version = ''1.0.0'', pi_isDevDependency = False, pi_isDirect = True\<rparr>,
        \<lparr>pi_name = ''package-b'', pi_version = ''2.0.0'', pi_isDevDependency = False, pi_isDirect = False\<rparr>]\<rparr>"

subsection \<open>The entries of a tree\<close>

text \<open>
  Every entry (map key, node) of every \<^verbatim>\<open>dependencies\<close> map of a tree, in the order in
  which the builder visits them. The builder computes the id of a node from the map key
  under which it is stored and from the node's version (\<open>entryKey\<close>); the node's own name
  goes into the \<open>name\<close> field only.
\<close>

fun depEntries :: "DependencyNode \<Rightarrow> (string \<times> DependencyNode) list"
and allEntries :: "(string \<times> DependencyNode) list \<Rightarrow> (string \<times> DependencyNode) list"
where
  "depEntries (DependencyNode name version resolved deps) =
     (case deps of None \<Rightarrow> [] | Some cs \<Rightarrow> allEntries cs)"
| "allEntries [] = []"
| "allEntries ((key, dep) # rest) = (key, dep) # depEntries dep @ allEntries rest"

definition entryKey :: "string \<times> DependencyNode \<Rightarrow> string" where
  "entryKey e = createKey (fst e) (dn_version (snd e))"

text \<open>The (name, version) pairs occurring anywhere in a tree, and the condition that
  every map key, at every level, is the name of the node stored under it; \<open>topKeysAgree\<close>
  asks this of the top-level map only.\<close>

definition treePairs :: "DependencyTree \<Rightarrow> (string \<times> string) list" where
  "treePairs t = map (\<lambda>(key, dep). (dn_name dep, dn_version dep)) (allEntries (dt_dependencies t))"

definition keysAgree :: "DependencyTree \<Rightarrow> bool" where
  "keysAgree t = list_all (\<lambda>(key, dep). key = dn_name dep) (allEntries (dt_dependencies t))"

text \<open>Every node of the table was created for some entry of \<open>E\<close>.\<close>

definition nodesFrom :: "(string \<times> DependencyNode) set \<Rightarrow> DependencyGraph \<Rightarrow> bool" where
  "nodesFrom E g \<longleftrightarrow>
     (\<forall>k n. map_of (nodes g) k = Some n \<longrightarrow>
        (\<exists>e \<in> E. k = entryKey e \<and> gn_name n = dn_name (snd e) \<and> gn_version n = dn_version (snd e)))"

definition topKeysAgree :: "DependencyTree \<Rightarrow> bool" where
  "topKeysAgree t = list_all (\<lambda>(key, dep). key = dn_name dep) (dt_dependencies t)"

text \<open>A tree whose nested map stores the node \<open>b@2\<close> under the key \<open>x\<close>.\<close>

definition aliasTree :: DependencyTree where
  "aliasTree = \<lparr>dt_name = ''app'', dt_version = ''1.0.0'',
     dt_dependencies =
       [(''a'', DependencyNode ''a'' ''1'' [] (Some [(''x'', DependencyNode ''b'' ''2'' [] None)]))],
     dt_packages = []\<rparr>"

subsection \<open>The builder with a call stack and a meter\<close>

text \<open>
  The resources of a run of the builder. The recursion of \<^verbatim>\<open>buildNodeRecursive\<close> is as
  deep as the tree is nested; a call for which the call stack has no frame left raises
  \<^verbatim>\<open>RangeError\<close>, which ends the run. Time is metered in two counters: the calls of
  \<^verbatim>\<open>buildNodeRecursive\<close>, and the element comparisons of
  \<^verbatim>\<open>parentNode.children.includes(nodeId)\<close>, a linear scan of the parent's children list
  that stops at the first hit. The operations on the \<^verbatim>\<open>Map\<close> and the pushes count as
  part of the call.
\<close>

datatype builderError = RangeError

record Meter =
  m_calls :: nat
  m_comparisons :: nat

fun includesSteps :: "string \<Rightarrow> string list \<Rightarrow> nat" where
  "includesSteps x [] = 0"
| "includesSteps x (y # ys) = (if y = x then 1 else Suc (includesSteps x ys))"

text \<open>The comparisons of one visit: \<^verbatim>\<open>includes\<close> runs when the parent is truthy and is in
  the table (line 63), on the table as it is after the node was created.\<close>

definition visitComparisons ::
  "DependencyNode \<Rightarrow> string \<Rightarrow> nat \<Rightarrow> string option \<Rightarrow> DependencyGraph \<Rightarrow> bool \<Rightarrow> nat"
where
  "visitComparisons dep nodeId depth parent g isDevDependency =
     (case parent of
        None \<Rightarrow> 0
      | Some p \<Rightarrow>
          if p = [] then 0
          else (case map_of (nodes (addNode dep nodeId depth parent g isDevDependency)) p of
                  None \<Rightarrow> 0
                | Some parentNode \<Rightarrow> includesSteps nodeId (gn_children parentNode)))"

fun buildNodeRecursiveM ::
  "nat \<Rightarrow> DependencyNode \<Rightarrow> string \<Rightarrow> nat \<Rightarrow> string option \<Rightarrow> DependencyGraph \<times> Meter \<Rightarrow> bool
     \<Rightarrow> builderError + DependencyGraph \<times> Meter"
and buildChildrenM ::
  "nat \<Rightarrow> (string \<times> DependencyNode) list \<Rightarrow> string \<Rightarrow> nat \<Rightarrow> DependencyGraph \<times> Meter \<Rightarrow> bool
     \<Rightarrow> builderError + DependencyGraph \<times> Meter"
where
  "buildNodeRecursiveM stack (DependencyNode name version resolved deps) nodeId depth parent s isDev =
     (case stack of
        0 \<Rightarrow> Inl RangeError
      | Suc frames \<Rightarrow>
          (let dep = DependencyNode name version resolved deps;
               g1 = visitNode dep nodeId depth parent (fst s) isDev;
               m1 = \<lparr>m_calls = m_calls (snd s) + 1,
                     m_comparisons = m_comparisons (snd s)
                       + visitComparisons dep nodeId depth parent (fst s) isDev\<rparr>
           in case deps of
                None \<Rightarrow> Inr (g1, m1)
              | Some cs \<Rightarrow> buildChildrenM frames cs nodeId depth (g1, m1) isDev))"
| "buildChildrenM frames [] nodeId depth s isDev = Inr s"
| "buildChildrenM frames ((childName, childDep) # rest) nodeId depth s isDev =
     (case buildNodeRecursiveM frames childDep (createKey childName (dn_version childDep))
             (depth + 1) (Some nodeId) s isDev of
        Inl e \<Rightarrow> Inl e
      | Inr s1 \<Rightarrow> buildChildrenM frames rest nodeId depth s1 isDev)"

fun buildRootsM ::
  "nat \<Rightarrow> (string \<times> DependencyNode) list \<Rightarrow> DependencyGraph \<times> Meter
     \<Rightarrow> builderError + DependencyGraph \<times> Meter"
where
  "buildRootsM stack [] s = Inr s"
| "buildRootsM stack ((name, dep) # rest) s =
     (let nodeId = createKey name (dn_version dep)
      in case buildNodeRecursiveM stack dep nodeId 0 None
                ((fst s)\<lparr>roots := roots (fst s) @ [nodeId]\<rparr>, snd s) False of
           Inl e \<Rightarrow> Inl e
         | Inr s1 \<Rightarrow> buildRootsM stack rest s1)"

definition buildGraphM :: "nat \<Rightarrow> DependencyTree \<Rightarrow> builderError + DependencyGraph \<times> Meter" where
  "buildGraphM stack depTree =
     buildRootsM stack (dt_dependencies depTree)
       (\<lparr>nodes = [], edges = [], roots = []\<rparr>, \<lparr>m_calls = 0, m_comparisons = 0\<rparr>)"

text \<open>
  The measures of a tree that the resources are compared with: its size (the number of
  its entries, that is, of node occurrences), its depth (the longest chain of nested
  entries), and the comparisons that the visits of the builder make on it, visit by
  visit, each on the graph as the visits before it left it.
\<close>

fun depDepth :: "DependencyNode \<Rightarrow> nat"
and entriesDepth :: "(string \<times> DependencyNode) list \<Rightarrow> nat"
where
  "depDepth (DependencyNode name version resolved deps) =
     Suc (case deps of None \<Rightarrow> 0 | Some cs \<Rightarrow> entriesDepth cs)"
| "entriesDepth [] = 0"
| "entriesDepth ((key, dep) # rest) = max (depDepth dep) (entriesDepth rest)"

definition treeDepth :: "DependencyTree \<Rightarrow> nat" where
  "treeDepth t = entriesDepth (dt_dependencies t)"

definition treeSize :: "DependencyTree \<Rightarrow> nat" where
  "treeSize t = length (allEntries (dt_dependencies t))"

fun depComparisons ::
  "DependencyNode \<Rightarrow> string \<Rightarrow> nat \<Rightarrow> string option \<Rightarrow> DependencyGraph \<Rightarrow> bool \<Rightarrow> nat"
and childrenComparisons ::
  "(string \<times> DependencyNode) list \<Rightarrow> string \<Rightarrow> nat \<Rightarrow> DependencyGraph \<Rightarrow> bool \<Rightarrow> nat"
where
  "depComparisons (DependencyNode name version resolved deps) nodeId depth parent g isDev =
     visitComparisons (DependencyNode name version resolved deps) nodeId depth parent g isDev
     + (case deps of
          None \<Rightarrow> 0
        | Some cs \<Rightarrow>
            childrenComparisons cs nodeId depth
              (visitNode (DependencyNode name version resolved deps) nodeId depth parent g isDev)
              isDev)"
| "childrenComparisons [] nodeId depth g isDev = 0"
| "childrenComparisons ((childName, childDep) # rest) nodeId depth g isDev =
     depComparisons childDep (createKey childName (dn_version childDep)) (depth + 1)
       (Some nodeId) g isDev
     + childrenComparisons rest nodeId depth
         (buildNodeRecursive childDep (createKey childName (dn_version childDep)) (depth + 1)
            (Some nodeId) g isDev)
         isDev"

fun rootsComparisons :: "(string \<times> DependencyNode) list \<Rightarrow> DependencyGraph \<Rightarrow> nat" where
  "rootsComparisons [] g = 0"
| "rootsComparisons ((name, dep) # rest) g =
     (let nodeId = createKey name (dn_version dep);
          g0 = g\<lparr>roots := roots g @ [nodeId]\<rparr>
      in depComparisons dep nodeId 0 None g0 False
         + rootsComparisons rest (buildNodeRecursive dep nodeId 0 None g0 False))"

definition treeComparisons :: "DependencyTree \<Rightarrow> nat" where
  "treeComparisons t =
     rootsComparisons (dt_dependencies t) \<lparr>nodes = [], edges = [], roots = []\<rparr>"

text \<open>The time of a run on a stack that is deep enough: calls plus comparisons.\<close>

definition buildTime :: "DependencyTree \<Rightarrow> nat" where
  "buildTime t =
     (case buildGraphM (treeDepth t) t of
        Inl e \<Rightarrow> 0
      | Inr (g, m) \<Rightarrow> m_calls m + m_comparisons m)"

text \<open>Stars: one root \<open>r\<close> with \<open>n\<close> children without dependencies, named \<open>c\<close>, \<open>cc\<close>,
  \<open>ccc\<close> and so on; \<open>starTree4\<close> is the star of four children written out.\<close>

definition starChild :: "nat \<Rightarrow> string \<times> DependencyNode" where
  "starChild i =
     (replicate (Suc i) CHR ''c'', DependencyNode (replicate (Suc i) CHR ''c'') ''1'' [] None)"

definition starTree :: "nat \<Rightarrow> DependencyTree" where
  "starTree n = \<lparr>dt_name = ''app'', dt_version = ''1.0.0'',
     dt_dependencies = [(''r'', DependencyNode ''r'' ''1'' [] (Some (map starChild [0..<n])))],
     dt_packages = []\<rparr>"

definition starTree4 :: DependencyTree where
  "starTree4 = \<lparr>dt_name = ''app'', dt_version = ''1.0.0'',
     dt_dependencies =
       [(''r'', DependencyNode ''r'' ''1'' []
          (Some [(''c'', DependencyNode ''c'' ''1'' [] None),
                 (''cc'', DependencyNode ''cc'' ''1'' [] None),
                 (''ccc'', DependencyNode ''ccc'' ''1'' [] None),
                 (''cccc'', DependencyNode ''cccc'' ''1'' [] None)]))],
     dt_packages = []\<rparr>"


text \<open>Invariant for the cost of a scan: no children list is longer than the edge list.\<close>

definition lenInv :: "DependencyGraph \<Rightarrow> bool" where
  "lenInv g \<longleftrightarrow>
     (\<forall>k n. map_of (nodes g) k = Some n \<longrightarrow> length (gn_children n) \<le> length (edges g))"

section \<open>Identity canonicalizer\<close>

text \<open>
  \<^verbatim>\<open>encodeURIComponent\<close> leaves the unreserved characters \<^verbatim>\<open>A-Z a-z 0-9 - _ . ! ~ * ' ( )\<close>
  and writes every other character as the bytes of its UTF-8 encoding, each byte as
  \<^verbatim>\<open>%XX\<close> in upper-case hexadecimal. On the byte list of a string that is one escape per
  byte outside the unreserved set. (A string with a lone surrogate, on which JavaScript
  raises \<^verbatim>\<open>URIError\<close>, has no UTF-8 encoding and is outside the model.)
\<close>

definition unreserved :: "char \<Rightarrow> bool" where
  "unreserved c \<longleftrightarrow>
     c \<in> set ''ABCDEFGHIJKLMNOPQRSTUVWXYZabcdefghijklmnopqrstuvwxyz0123456789-_.!~*()''
     \<or> c = CHR 0x27"

definition hexDigit :: "nat \<Rightarrow> char" where
  "hexDigit n = ''0123456789ABCDEF'' ! (n mod 16)"

definition encodeChar :: "char \<Rightarrow> string" where
  "encodeChar c =
     (if unreserved c then [c]
      else [CHR ''%'', hexDigit (of_char c div 16), hexDigit (of_char c mod 16)])"

definition encodeURIComponent :: "string \<Rightarrow> string" where
  "encodeURIComponent s = concat (map encodeChar s)"

text \<open>\<^verbatim>\<open>s.split(sep)\<close> for a one-character separator: the segments between the
  separators, at least one.\<close>

fun split :: "char \<Rightarrow> string \<Rightarrow> string list" where
  "split sep [] = [[]]"
| "split sep (c # cs) =
     (if c = sep then [] # split sep cs
      else (case split sep cs of
              [] \<Rightarrow> [[c]]
            | seg # segs \<Rightarrow> (c # seg) # segs))"

text \<open>
  \<^verbatim>\<open>createBomRef\<close>. The destructuring \<^verbatim>\<open>[scope, pkgName] = name.split('/')\<close> takes the
  first two segments; a missing second segment is \<^verbatim>\<open>undefined\<close> and becomes the empty
  string, further segments are dropped.
\<close>

definition createBomRef :: "string \<Rightarrow> string \<Rightarrow> string" where
  "createBomRef name version =
     (case name of
        c # _ \<Rightarrow>
          if c = CHR ''@''
          then (let parts = split CHR ''/'' name;
                    scope = (case parts of [] \<Rightarrow> [] | s # _ \<Rightarrow> s);
                    pkgName = (case parts of _ # p # _ \<Rightarrow> p | _ \<Rightarrow> []);
                    encodedScope = encodeURIComponent scope;
                    encodedName = encodeURIComponent pkgName
                in ''pkg:npm/'' @ encodedScope @ ''/'' @ encodedName @ ''@'' @ version)
          else ''pkg:npm/'' @ encodeURIComponent name @ ''@'' @ version
      | [] \<Rightarrow> ''pkg:npm/'' @ encodeURIComponent name @ ''@'' @ version)"

text \<open>
  \<^verbatim>\<open>s.replace(/[c]+/g, '-')\<close> for a character class given as a predicate: every maximal
  run of characters of the class becomes one \<^verbatim>\<open>-\<close>.
\<close>

function replaceRuns :: "(char \<Rightarrow> bool) \<Rightarrow> string \<Rightarrow> string" where
  "replaceRuns cls [] = []"
| "replaceRuns cls (c # cs) =
     (if cls c then CHR ''-'' # replaceRuns cls (dropWhile cls cs)
      else c # replaceRuns cls cs)"
  by pat_completeness auto
termination
  by (relation "measure (\<lambda>(cls, s). length s)")
     (auto simp: le_imp_less_Suc length_dropWhile_le)

definition spdxIdChar :: "char \<Rightarrow> bool" where
  "spdxIdChar c \<longleftrightarrow>
     c \<in> set ''ABCDEFGHIJKLMNOPQRSTUVWXYZabcdefghijklmnopqrstuvwxyz0123456789-.''"

definition createSpdxRef :: "string \<Rightarrow> string \<Rightarrow> string" where
  "createSpdxRef name version =
     (let base = replaceRuns (\<lambda>c. c = CHR ''-'')
                   (replaceRuns (\<lambda>c. \<not> spdxIdChar c) (name @ ''-'' @ version))
      in ''SPDXRef-'' @ base)"

section \<open>SBOM generator\<close>

text \<open>\<^verbatim>\<open>scanner/types.ts\<close>: \<^verbatim>\<open>Vulnerability\<close> and \<^verbatim>\<open>ScanResult\<close>. A number is a
  rational; the generator reads \<^verbatim>\<open>references\<close> and \<^verbatim>\<open>cvss\<close> defensively
  (\<^verbatim>\<open>?.\<close>, \<^verbatim>\<open>||\<close>, \<^verbatim>\<open>??\<close>), so both may be absent.\<close>

record Vulnerability =
  vu_id :: string
  vu_severity :: string
  vu_package :: string
  vu_version :: string
  vu_patched :: "string list"
  vu_description :: string
  vu_references :: "string list option"
  vu_cvss :: "rat option"
  vu_epss :: "rat option"
  vu_isTransitive :: "bool option"
  vu_path :: "string list option"

record ScanSummary =
  sum_critical :: nat
  sum_high :: nat
  sum_moderate :: nat
  sum_low :: nat

record ScanResult =
  sr_vulnerabilities :: "Vulnerability list"
  sr_totalPackages :: nat
  sr_scannedAt :: string
  sr_dependencies :: DependencyTree
  sr_summary :: ScanSummary

text \<open>\<^verbatim>\<open>sbom/types.ts\<close>. The generator takes \<^verbatim>\<open>Partial<SbomGenerateOptions>\<close>: every field
  is optional.\<close>

datatype SbomFormat = cyclonedx | spdx

record SbomMetadata =
  md_supplier :: "string option"
  md_componentName :: "string option"
  md_componentVersion :: "string option"

record SbomGenerateOptions =
  op_projectPath :: "string option"
  op_format :: "SbomFormat option"
  op_includeDevDependencies :: "bool option"
  op_attachVulnerabilities :: "bool option"
  op_outputFile :: "string option"
  op_metadata :: "SbomMetadata option"

record SbomStats =
  st_totalComponents :: nat
  st_directDependencies :: nat
  st_devDependencies :: nat

text \<open>\<^verbatim>\<open>sbom/generator.ts\<close>: \<^verbatim>\<open>PackageMetadata\<close>, \<^verbatim>\<open>PackageMetadataMap\<close>,
  \<^verbatim>\<open>SpdxAnnotation\<close>, and the generator's own graph type, a map from a package reference
  to the insertion-ordered set of references it depends on.\<close>

record PackageMetadata =
  pm_info :: PackageInfo
  pm_bomRef :: string
  pm_spdxRef :: string

record PackageMetadataMap =
  byKey :: "(string \<times> PackageMetadata) list"
  byBomRef :: "(string \<times> PackageMetadata) list"

record SpdxAnnotation =
  an_spdxElementId :: string
  an_annotationType :: string
  an_annotator :: string
  an_comment :: string
  an_annotationDate :: string

type_synonym RefGraph = "(string \<times> string list) list"

text \<open>The shapes of the two documents, as the object literals of the generator build
  them. An absent key (\<^verbatim>\<open>undefined\<close>) is \<open>None\<close>.\<close>

record RootComponent =
  rc_bomRef :: string
  rc_type :: string
  rc_name :: string
  rc_version :: string
  rc_purl :: string
  rc_supplier :: "string option"

record Component =
  co_bomRef :: string
  co_type :: string
  co_name :: string
  co_version :: string
  co_purl :: string
  co_scope :: string
  co_properties :: "(string \<times> string) list"

record DependencyEntry =
  de_ref :: string
  de_dependsOn :: "string list"

record Rating =
  ra_severity :: string
  ra_score :: "rat option"
  ra_method :: "string option"

record CdxVulnerability =
  cv_id :: string
  cv_source :: string
  cv_ratings :: "Rating list"
  cv_details :: string
  cv_affects :: "string list"
  cv_advisories :: "string list"

record Tool =
  tl_vendor :: string
  tl_name :: string
  tl_version :: string

record CdxMetadata =
  cm_timestamp :: string
  cm_tools :: "Tool list"
  cm_component :: RootComponent

record CycloneDxBom =
  bom_bomFormat :: string
  bom_specVersion :: string
  bom_serialNumber :: string
  bom_version :: nat
  bom_metadata :: CdxMetadata
  bom_components :: "Component list"
  bom_dependencies :: "DependencyEntry list"
  bom_vulnerabilities :: "CdxVulnerability list option"

record ExternalRef =
  er_referenceCategory :: string
  er_referenceType :: string
  er_referenceLocator :: string

record SpdxPackage =
  sp_name :: string
  sp_SPDXID :: string
  sp_versionInfo :: string
  sp_supplier :: "string option"
  sp_downloadLocation :: string
  sp_primaryPackagePurpose :: string
  sp_licenseConcluded :: string
  sp_licenseDeclared :: string
  sp_externalRefs :: "ExternalRef list option"

record SpdxRelationship =
  rel_spdxElementId :: string
  rel_relationshipType :: string
  rel_relatedSpdxElement :: string

record SpdxCreationInfo =
  ci_created :: string
  ci_creators :: "string list"
  ci_licenseListVersion :: string

record SpdxDocument =
  sd_SPDXID :: string
  sd_spdxVersion :: string
  sd_dataLicense :: string
  sd_name :: string
  sd_documentNamespace :: string
  sd_creationInfo :: SpdxCreationInfo
  sd_packages :: "SpdxPackage list"
  sd_relationships :: "SpdxRelationship list"
  sd_annotations :: "SpdxAnnotation list"

datatype SbomDocument = CycloneDx CycloneDxBom | Spdx SpdxDocument

record SbomGenerationResult =
  res_format :: SbomFormat
  res_document :: SbomDocument
  res_outputPath :: "string option"
  res_generatedAt :: string
  res_stats :: SbomStats
  res_vulnerabilities :: "Vulnerability list"
  res_embeddedVulnerabilities :: bool

text \<open>
  What a run takes from its environment: the value of \<^verbatim>\<open>randomUUID()\<close> (called once per
  document), the ISO string of \<^verbatim>\<open>new Date()\<close>, the \<^verbatim>\<open>version\<close> of \<^verbatim>\<open>package.json\<close> when
  it is a string, and \<^verbatim>\<open>path.resolve\<close>.
\<close>

record Env =
  env_randomUUID :: string
  env_now :: string
  env_packageVersion :: "string option"
  env_resolve :: "string \<Rightarrow> string \<Rightarrow> string"

text \<open>The only exception the generator's own code can raise: a method call on
  \<^verbatim>\<open>undefined\<close>, at the non-null assertions \<^verbatim>\<open>graph.get(ref)!.add(child)\<close>.\<close>

datatype error = TypeError

definition CYCLONEDX_SPEC_VERSION :: string where
  "CYCLONEDX_SPEC_VERSION = ''1.5''"

definition SPDX_VERSION :: string where
  "SPDX_VERSION = ''SPDX-2.3''"

text \<open>A string in a condition: \<^verbatim>\<open>undefined\<close> and the empty string are falsy.\<close>

definition truthy :: "string option \<Rightarrow> bool" where
  "truthy s = (case s of None \<Rightarrow> False | Some v \<Rightarrow> v \<noteq> [])"

definition toolVersion :: "Env \<Rightarrow> string" where
  "toolVersion env = (case env_packageVersion env of Some v \<Rightarrow> v | None \<Rightarrow> ''unknown'')"

definition buildStats :: "PackageInfo list \<Rightarrow> SbomStats" where
  "buildStats packages =
     \<lparr>st_totalComponents = length packages,
      st_directDependencies = length (filter pi_isDirect packages),
      st_devDependencies = length (filter pi_isDevDependency packages)\<rparr>"

text \<open>\<^verbatim>\<open>options.metadata?.componentName ?? tree.name\<close> and its companions.\<close>

definition componentNameOf :: "DependencyTree \<Rightarrow> SbomGenerateOptions \<Rightarrow> string" where
  "componentNameOf tree options =
     (case op_metadata options of
        None \<Rightarrow> dt_name tree
      | Some m \<Rightarrow> (case md_componentName m of None \<Rightarrow> dt_name tree | Some n \<Rightarrow> n))"

definition componentVersionOf :: "DependencyTree \<Rightarrow> SbomGenerateOptions \<Rightarrow> string" where
  "componentVersionOf tree options =
     (case op_metadata options of
        None \<Rightarrow> dt_version tree
      | Some m \<Rightarrow> (case md_componentVersion m of None \<Rightarrow> dt_version tree | Some v \<Rightarrow> v))"

definition supplierOf :: "SbomGenerateOptions \<Rightarrow> string option" where
  "supplierOf options =
     (case op_metadata options of
        None \<Rightarrow> None
      | Some m \<Rightarrow> if truthy (md_supplier m) then md_supplier m else None)"

definition buildRootComponent :: "DependencyTree \<Rightarrow> SbomGenerateOptions \<Rightarrow> RootComponent" where
  "buildRootComponent tree options =
     (let componentName = componentNameOf tree options;
          componentVersion = componentVersionOf tree options
      in \<lparr>rc_bomRef = createBomRef componentName componentVersion,
          rc_type = ''application'',
          rc_name = componentName,
          rc_version = componentVersion,
          rc_purl = createBomRef componentName componentVersion,
          rc_supplier = supplierOf options\<rparr>)"

fun buildPackageMetadataLoop :: "PackageInfo list \<Rightarrow> PackageMetadataMap \<Rightarrow> PackageMetadataMap" where
  "buildPackageMetadataLoop [] m = m"
| "buildPackageMetadataLoop (pkg # rest) m =
     (let key = createKey (pi_name pkg) (pi_version pkg);
          metadata = \<lparr>pm_info = pkg,
                      pm_bomRef = createBomRef (pi_name pkg) (pi_version pkg),
                      pm_spdxRef = createSpdxRef (pi_name pkg) (pi_version pkg)\<rparr>
      in buildPackageMetadataLoop rest
           \<lparr>byKey = AList.update key metadata (byKey m),
            byBomRef = AList.update (pm_bomRef metadata) metadata (byBomRef m)\<rparr>)"

definition buildPackageMetadataMap :: "PackageInfo list \<Rightarrow> PackageMetadataMap" where
  "buildPackageMetadataMap packages = buildPackageMetadataLoop packages \<lparr>byKey = [], byBomRef = []\<rparr>"

definition buildComponentsArray :: "(string \<times> PackageMetadata) list \<Rightarrow> Component list" where
  "buildComponentsArray packageMap =
     map (\<lambda>metadata.
            \<lparr>co_bomRef = pm_bomRef metadata,
             co_type = ''library'',
             co_name = pi_name (pm_info metadata),
             co_version = pi_version (pm_info metadata),
             co_purl = pm_bomRef metadata,
             co_scope = (if pi_isDevDependency (pm_info metadata) then ''optional'' else ''required''),
             co_properties =
               [(''securesync:direct'', if pi_isDirect (pm_info metadata) then ''true'' else ''false'')]\<rparr>)
         (map snd packageMap)"

text \<open>\<^verbatim>\<open>graph.get(ref)!.add(child)\<close>: a \<^verbatim>\<open>TypeError\<close> when \<open>ref\<close> is not in the map; else
  the child is added to the set unless it is there.\<close>

definition addDependency :: "RefGraph \<Rightarrow> string \<Rightarrow> string \<Rightarrow> error + RefGraph" where
  "addDependency graph ref child =
     (case map_of graph ref of
        None \<Rightarrow> Inl TypeError
      | Some deps \<Rightarrow>
          Inr (AList.update ref (if child \<in> set deps then deps else deps @ [child]) graph))"

text \<open>\<^verbatim>\<open>traverseNode\<close>; its loop over \<^verbatim>\<open>node.dependencies.values()\<close> is
  \<open>traverseChildren\<close>.\<close>

fun traverseNode :: "DependencyNode \<Rightarrow> RefGraph \<Rightarrow> error + RefGraph"
and traverseChildren :: "string \<Rightarrow> (string \<times> DependencyNode) list \<Rightarrow> RefGraph \<Rightarrow> error + RefGraph"
where
  "traverseNode (DependencyNode name version resolved deps) graph =
     (let nodeRef = createBomRef name version;
          graph1 = (if nodeRef \<in> fst ` set graph then graph else AList.update nodeRef [] graph)
      in case deps of
           None \<Rightarrow> Inr graph1
         | Some cs \<Rightarrow> traverseChildren nodeRef cs graph1)"
| "traverseChildren nodeRef [] graph = Inr graph"
| "traverseChildren nodeRef ((key, child) # rest) graph =
     (case addDependency graph nodeRef (createBomRef (dn_name child) (dn_version child)) of
        Inl e \<Rightarrow> Inl e
      | Inr graph1 \<Rightarrow>
          (case traverseNode child graph1 of
             Inl e \<Rightarrow> Inl e
           | Inr graph2 \<Rightarrow> traverseChildren nodeRef rest graph2))"

text \<open>\<^verbatim>\<open>buildDependencyGraph\<close>; its loop over \<^verbatim>\<open>tree.dependencies.values()\<close> is
  \<open>traverseRoots\<close>.\<close>

fun traverseRoots :: "string \<Rightarrow> (string \<times> DependencyNode) list \<Rightarrow> RefGraph \<Rightarrow> error + RefGraph" where
  "traverseRoots rootRef [] graph = Inr graph"
| "traverseRoots rootRef ((key, node) # rest) graph =
     (case addDependency graph rootRef (createBomRef (dn_name node) (dn_version node)) of
        Inl e \<Rightarrow> Inl e
      | Inr graph1 \<Rightarrow>
          (case traverseNode node graph1 of
             Inl e \<Rightarrow> Inl e
           | Inr graph2 \<Rightarrow> traverseRoots rootRef rest graph2))"

definition buildDependencyGraph :: "DependencyTree \<Rightarrow> error + RefGraph" where
  "buildDependencyGraph tree =
     (let rootRef = createBomRef (dt_name tree) (dt_version tree)
      in traverseRoots rootRef (dt_dependencies tree) [(rootRef, [])])"

definition buildDependencyEntries :: "RefGraph \<Rightarrow> DependencyEntry list" where
  "buildDependencyEntries graph = map (\<lambda>(ref, deps). \<lparr>de_ref = ref, de_dependsOn = deps\<rparr>) graph"

text \<open>\<^verbatim>\<open>s.includes(sub)\<close>: \<open>sub\<close> occurs in \<open>s\<close> as a contiguous substring.\<close>

fun includesStr :: "string \<Rightarrow> string \<Rightarrow> bool" where
  "includesStr [] sub = (sub = [])"
| "includesStr (c # cs) sub = (take (length sub) (c # cs) = sub \<or> includesStr cs sub)"

text \<open>The lookup \<^verbatim>\<open>ratingsMap[severity] ?? 'unknown'\<close> in the four own keys of the table.\<close>

definition ratingsMap :: "(string \<times> string) list" where
  "ratingsMap = [(''low'', ''low''), (''moderate'', ''medium''), (''high'', ''high''),
                 (''critical'', ''critical'')]"

definition buildCycloneDxVulnerabilities ::
  "Vulnerability list \<Rightarrow> (string \<times> PackageMetadata) list \<Rightarrow> CdxVulnerability list"
where
  "buildCycloneDxVulnerabilities vulnerabilities packageMap =
     map (\<lambda>vuln.
            let key = createKey (vu_package vuln) (vu_version vuln);
                component = map_of packageMap key
            in \<lparr>cv_id = vu_id vuln,
                cv_source =
                  (case vu_references vuln of
                     Some (r # _) \<Rightarrow> if includesStr r ''nvd'' then ''NVD'' else ''SecureSync''
                   | _ \<Rightarrow> ''SecureSync''),
                cv_ratings =
                  [\<lparr>ra_severity =
                      (case map_of ratingsMap (vu_severity vuln) of
                         Some s \<Rightarrow> s | None \<Rightarrow> ''unknown''),
                    ra_score = vu_cvss vuln,
                    ra_method =
                      (case vu_cvss vuln of
                         Some c \<Rightarrow> if c \<noteq> 0 then Some ''CVSSv3'' else None
                       | None \<Rightarrow> None)\<rparr>],
                cv_details = vu_description vuln,
                cv_affects =
                  (case component of Some c \<Rightarrow> [pm_bomRef c] | None \<Rightarrow> []),
                cv_advisories =
                  (case vu_references vuln of Some rs \<Rightarrow> rs | None \<Rightarrow> [])\<rparr>)
         vulnerabilities"

definition buildSpdxPackages ::
  "DependencyTree \<Rightarrow> (string \<times> PackageMetadata) list \<Rightarrow> SbomGenerateOptions \<Rightarrow> SpdxPackage list"
where
  "buildSpdxPackages tree packageMap options =
     (let rootName = componentNameOf tree options;
          rootVersion = componentVersionOf tree options
      in \<lparr>sp_name = rootName,
          sp_SPDXID = createSpdxRef rootName rootVersion,
          sp_versionInfo = rootVersion,
          sp_supplier =
            Some (case supplierOf options of
                    Some s \<Rightarrow> ''Organization: '' @ s
                  | None \<Rightarrow> ''NOASSERTION''),
          sp_downloadLocation = ''NOASSERTION'',
          sp_primaryPackagePurpose = ''APPLICATION'',
          sp_licenseConcluded = ''NOASSERTION'',
          sp_licenseDeclared = ''NOASSERTION'',
          sp_externalRefs = None\<rparr>
         # map (\<lambda>metadata.
                  \<lparr>sp_name = pi_name (pm_info metadata),
                   sp_SPDXID = pm_spdxRef metadata,
                   sp_versionInfo = pi_version (pm_info metadata),
                   sp_supplier = None,
                   sp_downloadLocation = ''NOASSERTION'',
                   sp_primaryPackagePurpose = ''LIBRARY'',
                   sp_licenseConcluded = ''NOASSERTION'',
                   sp_licenseDeclared = ''NOASSERTION'',
                   sp_externalRefs =
                     Some [\<lparr>er_referenceCategory = ''PACKAGE-MANAGER'',
                            er_referenceType = ''purl'',
                            er_referenceLocator =
                              createBomRef (pi_name (pm_info metadata))
                                (pi_version (pm_info metadata))\<rparr>]\<rparr>)
               (map snd packageMap))"

text \<open>\<^verbatim>\<open>packageMap.get(ref)?.spdxRef\<close>.\<close>

definition spdxRefOf :: "(string \<times> PackageMetadata) list \<Rightarrow> string \<Rightarrow> string option" where
  "spdxRefOf packageMap ref = map_option pm_spdxRef (map_of packageMap ref)"

definition buildSpdxRelationships ::
  "DependencyTree \<Rightarrow> (string \<times> PackageMetadata) list \<Rightarrow> RefGraph \<Rightarrow> SbomGenerateOptions
     \<Rightarrow> SpdxRelationship list"
where
  "buildSpdxRelationships tree packageMap graph options =
     (let rootName = componentNameOf tree options;
          rootVersion = componentVersionOf tree options;
          rootRef = createSpdxRef rootName rootVersion;
          rootBomRef = createBomRef (dt_name tree) (dt_version tree)
      in \<lparr>rel_spdxElementId = ''SPDXRef-DOCUMENT'',
          rel_relationshipType = ''DESCRIBES'',
          rel_relatedSpdxElement = rootRef\<rparr>
         # concat
             (map (\<lambda>(parent, dependencies).
                     case (if parent = rootBomRef then Some rootRef
                           else spdxRefOf packageMap parent) of
                       None \<Rightarrow> []
                     | Some parentSpdx \<Rightarrow>
                         if parentSpdx = [] then []
                         else concat
                                (map (\<lambda>child.
                                        case spdxRefOf packageMap child of
                                          None \<Rightarrow> []
                                        | Some childSpdx \<Rightarrow>
                                            if childSpdx = [] then []
                                            else [\<lparr>rel_spdxElementId = parentSpdx,
                                                   rel_relationshipType = ''DEPENDS_ON'',
                                                   rel_relatedSpdxElement = childSpdx\<rparr>])
                                   dependencies))
                graph))"

definition buildSpdxAnnotations ::
  "Vulnerability list \<Rightarrow> (string \<times> PackageMetadata) list \<Rightarrow> string \<Rightarrow> SpdxAnnotation list"
where
  "buildSpdxAnnotations vulnerabilities packageMap generatedAt =
     List.map_filter
       (\<lambda>vuln.
          let key = createKey (vu_package vuln) (vu_version vuln);
              metadata = map_of packageMap key
          in case metadata of
               None \<Rightarrow> None
             | Some m \<Rightarrow>
                 Some \<lparr>an_spdxElementId = pm_spdxRef m,
                       an_annotationType = ''REVIEW'',
                       an_annotator = ''Tool: SecureSync'',
                       an_comment = vu_id vuln @ '' ('' @ vu_severity vuln @ '') - ''
                                    @ vu_description vuln,
                       an_annotationDate = generatedAt\<rparr>)
       vulnerabilities"

text \<open>\<^verbatim>\<open>options.attachVulnerabilities && scanResult.vulnerabilities.length > 0\<close>.\<close>

definition attachRequested :: "SbomGenerateOptions \<Rightarrow> bool" where
  "attachRequested options = (op_attachVulnerabilities options = Some True)"

definition buildCycloneDxBom ::
  "Env \<Rightarrow> ScanResult \<Rightarrow> string \<Rightarrow> SbomGenerateOptions \<Rightarrow> error + CycloneDxBom"
where
  "buildCycloneDxBom env scanResult generatedAt options =
     (let tree = sr_dependencies scanResult;
          serialNumber = ''urn:uuid:'' @ env_randomUUID env;
          rootComponent = buildRootComponent tree options;
          packageMap = buildPackageMetadataMap (dt_packages tree)
      in case buildDependencyGraph tree of
           Inl e \<Rightarrow> Inl e
         | Inr graph \<Rightarrow>
             Inr \<lparr>bom_bomFormat = ''CycloneDX'',
                  bom_specVersion = CYCLONEDX_SPEC_VERSION,
                  bom_serialNumber = serialNumber,
                  bom_version = 1,
                  bom_metadata =
                    \<lparr>cm_timestamp = generatedAt,
                     cm_tools = [\<lparr>tl_vendor = ''SecureSync'', tl_name = ''SecureSync'',
                                  tl_version = toolVersion env\<rparr>],
                     cm_component = rootComponent\<rparr>,
                  bom_components = buildComponentsArray (byKey packageMap),
                  bom_dependencies = buildDependencyEntries graph,
                  bom_vulnerabilities =
                    (if attachRequested options \<and> sr_vulnerabilities scanResult \<noteq> []
                     then Some (buildCycloneDxVulnerabilities (sr_vulnerabilities scanResult)
                                  (byKey packageMap))
                     else None)\<rparr>)"

definition buildSpdxDocument ::
  "Env \<Rightarrow> ScanResult \<Rightarrow> string \<Rightarrow> SbomGenerateOptions \<Rightarrow> error + SpdxDocument"
where
  "buildSpdxDocument env scanResult generatedAt options =
     (let tree = sr_dependencies scanResult;
          namespace = ''urn:uuid:'' @ env_randomUUID env;
          packageMap = buildPackageMetadataMap (dt_packages tree)
      in case buildDependencyGraph tree of
           Inl e \<Rightarrow> Inl e
         | Inr graph \<Rightarrow>
             Inr \<lparr>sd_SPDXID = ''SPDXRef-DOCUMENT'',
                  sd_spdxVersion = SPDX_VERSION,
                  sd_dataLicense = ''CC0-1.0'',
                  sd_name = componentNameOf tree options @ '' SBOM'',
                  sd_documentNamespace = namespace,
                  sd_creationInfo =
                    \<lparr>ci_created = generatedAt,
                     ci_creators = [''Tool: SecureSync '' @ toolVersion env],
                     ci_licenseListVersion = ''3.23''\<rparr>,
                  sd_packages = buildSpdxPackages tree (byKey packageMap) options,
                  sd_relationships =
                    buildSpdxRelationships tree (byBomRef packageMap) graph options,
                  sd_annotations =
                    (if attachRequested options
                     then buildSpdxAnnotations (sr_vulnerabilities scanResult)
                            (byKey packageMap) generatedAt
                     else [])\<rparr>)"

text \<open>
  \<^verbatim>\<open>generateSbom\<close>, from the result of the scan on: \<open>scanResult\<close> is what
  \<^verbatim>\<open>scanNpmProject\<close> resolved to. Writing the document to \<^verbatim>\<open>outputPath\<close> is an effect on
  the file system and is not modelled; a run in which the scan or the write fails returns
  no result at all.
\<close>

definition generateSbom ::
  "Env \<Rightarrow> ScanResult \<Rightarrow> string \<Rightarrow> SbomGenerateOptions \<Rightarrow> error + SbomGenerationResult"
where
  "generateSbom env scanResult projectPath options =
     (let format = (case op_format options of None \<Rightarrow> cyclonedx | Some f \<Rightarrow> f);
          generatedAt = env_now env;
          stats = buildStats (dt_packages (sr_dependencies scanResult));
          document =
            (if format = cyclonedx
             then map_sum id CycloneDx (buildCycloneDxBom env scanResult generatedAt options)
             else map_sum id Spdx (buildSpdxDocument env scanResult generatedAt options));
          embeddedVulnerabilities =
            (attachRequested options \<and> sr_vulnerabilities scanResult \<noteq> []);
          outputPath =
            (case op_outputFile options of
               None \<Rightarrow> None
             | Some f \<Rightarrow> if f = [] then None else Some (env_resolve env projectPath f))
      in case document of
           Inl e \<Rightarrow> Inl e
         | Inr doc \<Rightarrow>
             Inr \<lparr>res_format = format,
                  res_document = doc,
                  res_outputPath = outputPath,
                  res_generatedAt = generatedAt,
                  res_stats = stats,
                  res_vulnerabilities = sr_vulnerabilities scanResult,
                  res_embeddedVulnerabilities = embeddedVulnerabilities\<rparr>)"

text \<open>The scan of the generator's unit test: \<open>demo-app\<close> with \<open>lodash\<close> and, as a dev
  dependency, \<open>chalk\<close>, and one finding for \<open>lodash\<close>; \<open>ghostVuln\<close> is a finding for a
  package that is not in the project.\<close>

definition demoTree :: DependencyTree where
  "demoTree = \<lparr>dt_name = ''demo-app'', dt_version = ''1.0.0'',
     dt_dependencies =
       [(''lodash'', DependencyNode ''lodash'' ''4.17.21'' [] None),
        (''chalk'', DependencyNode ''chalk'' ''5.3.0'' [] None)],
     dt_packages =
       [\<lparr>pi_name = ''lodash'', pi_version = ''4.17.21'', pi_isDevDependency = False,
          pi_isDirect = True\<rparr>,
        \<lparr>pi_name = ''chalk'', pi_version = ''5.3.0'', pi_isDevDependency = True,
          pi_isDirect = True\<rparr>]\<rparr>"

definition demoVuln :: Vulnerability where
  "demoVuln = \<lparr>vu_id = ''CVE-2024-0001'', vu_severity = ''high'', vu_package = ''lodash'',
     vu_version = ''4.17.21'', vu_patched = [''4.17.22''],
     vu_description = ''Prototype pollution'',
     vu_references = Some [''https://nvd.nist.gov/vuln/detail/CVE-2024-0001''],
     vu_cvss = Some (81 / 10), vu_epss = None, vu_isTransitive = None, vu_path = None\<rparr>"

definition ghostVuln :: Vulnerability where
  "ghostVuln = \<lparr>vu_id = ''CVE-2024-0002'', vu_severity = ''low'', vu_package = ''left-pad'',
     vu_version = ''1.3.0'', vu_patched = [], vu_description = ''Not installed'',
     vu_references = None, vu_cvss = None, vu_epss = None, vu_isTransitive = None,
     vu_path = None\<rparr>"

definition demoMap :: "(string \<times> PackageMetadata) list" where
  "demoMap = byKey (buildPackageMetadataMap (dt_packages demoTree))"

definition demoScan :: "Vulnerability list \<Rightarrow> ScanResult" where
  "demoScan vs = \<lparr>sr_vulnerabilities = vs, sr_totalPackages = 2,
     sr_scannedAt = ''2024-02-01T00:00:00.000Z'', sr_dependencies = demoTree,
     sr_summary = \<lparr>sum_critical = 0, sum_high = 1, sum_moderate = 0, sum_low = 0\<rparr>\<rparr>"

definition demoEnv :: Env where
  "demoEnv = \<lparr>env_randomUUID = ''11111111-1111-4111-8111-111111111111'',
     env_now = ''2024-02-01T00:00:00.000Z'', env_packageVersion = Some ''1.0.0'',
     env_resolve = (\<lambda>base file. base @ ''/'' @ file)\<rparr>"

definition demoOptions :: "SbomFormat option \<Rightarrow> bool option \<Rightarrow> SbomGenerateOptions" where
  "demoOptions format attach = \<lparr>op_projectPath = None, op_format = format,
     op_includeDevDependencies = None, op_attachVulnerabilities = attach, op_outputFile = None,
     op_metadata = None\<rparr>"

definition packageMetadata :: "PackageInfo \<Rightarrow> PackageMetadata" where
  "packageMetadata pkg =
     \<lparr>pm_info = pkg,
      pm_bomRef = createBomRef (pi_name pkg) (pi_version pkg),
      pm_spdxRef = createSpdxRef (pi_name pkg) (pi_version pkg)\<rparr>"

definition packageKey :: "PackageInfo \<Rightarrow> string" where
  "packageKey pkg = createKey (pi_name pkg) (pi_version pkg)"

text \<open>A project with two packages whose names differ in one character that the SPDX
  sanitizer replaces: \<open>string_decoder\<close> and \<open>string-decoder\<close>, both at 1.0.0.\<close>

definition collisionTree :: DependencyTree where
  "collisionTree = \<lparr>dt_name = ''demo-app'', dt_version = ''1.0.0'',
     dt_dependencies =
       [(''string_decoder'', DependencyNode ''string_decoder'' ''1.0.0'' [] None),
        (''string-decoder'', DependencyNode ''string-decoder'' ''1.0.0'' [] None)],
     dt_packages =
       [\<lparr>pi_name = ''string_decoder'', pi_version = ''1.0.0'', pi_isDevDependency = False,
          pi_isDirect = True\<rparr>,
        \<lparr>pi_name = ''string-decoder'', pi_version = ''1.0.0'', pi_isDevDependency = False,
          pi_isDirect = True\<rparr>]\<rparr>"

definition collisionScan :: ScanResult where
  "collisionScan = \<lparr>sr_vulnerabilities = [], sr_totalPackages = 2,
     sr_scannedAt = ''2024-02-01T00:00:00.000Z'', sr_dependencies = collisionTree,
     sr_summary = \<lparr>sum_critical = 0, sum_high = 0, sum_moderate = 0, sum_low = 0\<rparr>\<rparr>"

section \<open>Graph query layer\<close>

text \<open>
  \<^verbatim>\<open>findPathsRecursive\<close> has no guard against cycles in the children links, so it need
  not return. It is modelled with a bound on the depth of the recursion: a call at depth
  bound 0 does not return (\<open>None\<close>), and a loop in which a recursive call does not return
  does not return either. \<open>findPathsLoop\<close> is the \<^verbatim>\<open>for\<close> loop over \<^verbatim>\<open>node.children\<close>,
  with the recursive calls as the parameter \<open>recurse\<close>.
\<close>

fun findPathsLoop ::
  "(string \<Rightarrow> string list \<Rightarrow> string list list option) \<Rightarrow> DependencyGraph \<Rightarrow> string
     \<Rightarrow> string list \<Rightarrow> string list \<Rightarrow> string list list option"
where
  "findPathsLoop recurse graph targetPackage currentPath [] = Some []"
| "findPathsLoop recurse graph targetPackage currentPath (childId # rest) =
     (case map_of (nodes graph) childId of
        None \<Rightarrow> findPathsLoop recurse graph targetPackage currentPath rest
      | Some childNode \<Rightarrow>
          (let newPath = currentPath @ [childId]
           in if gn_name childNode = targetPackage
              then map_option ((#) newPath)
                     (findPathsLoop recurse graph targetPackage currentPath rest)
              else (case recurse childId newPath of
                      None \<Rightarrow> None
                    | Some subPaths \<Rightarrow>
                        map_option ((@) subPaths)
                          (findPathsLoop recurse graph targetPackage currentPath rest))))"

primrec findPathsRecursive ::
  "nat \<Rightarrow> DependencyGraph \<Rightarrow> string \<Rightarrow> string \<Rightarrow> string list \<Rightarrow> string list list option"
where
  "findPathsRecursive 0 graph currentNodeId targetPackage currentPath = None"
| "findPathsRecursive (Suc fuel) graph currentNodeId targetPackage currentPath =
     (case map_of (nodes graph) currentNodeId of
        None \<Rightarrow> Some []
      | Some node \<Rightarrow>
          findPathsLoop (\<lambda>childId newPath. findPathsRecursive fuel graph childId targetPackage newPath)
            graph targetPackage currentPath (gn_children node))"

text \<open>\<^verbatim>\<open>findDependencyPath\<close>; its loop over \<^verbatim>\<open>graph.roots\<close> is \<open>findRootPaths\<close>.\<close>

fun findRootPaths ::
  "nat \<Rightarrow> DependencyGraph \<Rightarrow> string \<Rightarrow> string list \<Rightarrow> string list list option"
where
  "findRootPaths fuel graph packageName [] = Some []"
| "findRootPaths fuel graph packageName (rootId # rest) =
     (case map_of (nodes graph) rootId of
        None \<Rightarrow> findRootPaths fuel graph packageName rest
      | Some rootNode \<Rightarrow>
          if gn_name rootNode = packageName
          then map_option ((#) [rootId]) (findRootPaths fuel graph packageName rest)
          else (case findPathsRecursive fuel graph rootId packageName [rootId] of
                  None \<Rightarrow> None
                | Some subPaths \<Rightarrow>
                    map_option ((@) subPaths) (findRootPaths fuel graph packageName rest)))"

definition findDependencyPath ::
  "nat \<Rightarrow> DependencyGraph \<Rightarrow> string \<Rightarrow> string list list option"
where
  "findDependencyPath fuel graph packageName = findRootPaths fuel graph packageName (roots graph)"

text \<open>
  The paths that the claims speak of, as predicates on a list of ids. Both start at one
  of \<open>ids\<close> (the roots) and follow children links through nodes of the table.
  \<open>pathTo\<close> follows the words of the specification: the last node has the target name.
  \<open>firstMatchPath\<close> asks in addition that no earlier node of the path has it.
\<close>

fun pathTo :: "DependencyGraph \<Rightarrow> string \<Rightarrow> string list \<Rightarrow> string list \<Rightarrow> bool" where
  "pathTo g target ids [] = False"
| "pathTo g target ids (x # xs) =
     (x \<in> set ids \<and>
      (case map_of (nodes g) x of
         None \<Rightarrow> False
       | Some n \<Rightarrow> if xs = [] then gn_name n = target else pathTo g target (gn_children n) xs))"

fun firstMatchPath :: "DependencyGraph \<Rightarrow> string \<Rightarrow> string list \<Rightarrow> string list \<Rightarrow> bool" where
  "firstMatchPath g target ids [] = False"
| "firstMatchPath g target ids (x # xs) =
     (x \<in> set ids \<and>
      (case map_of (nodes g) x of
         None \<Rightarrow> False
       | Some n \<Rightarrow>
           if gn_name n = target then xs = [] else firstMatchPath g target (gn_children n) xs))"

text \<open>
  Traversal order on paths: at the first position where two paths part, the id of the
  first comes earlier in the list that is iterated there (the roots, or the children of
  the common predecessor).
\<close>

fun indexOf :: "'a \<Rightarrow> 'a list \<Rightarrow> nat" where
  "indexOf x [] = 0"
| "indexOf x (y # ys) = (if x = y then 0 else Suc (indexOf x ys))"

fun pathBefore :: "DependencyGraph \<Rightarrow> string list \<Rightarrow> string list \<Rightarrow> string list \<Rightarrow> bool" where
  "pathBefore g ids (x # xs) (y # ys) =
     (if x = y
      then (case map_of (nodes g) x of
              None \<Rightarrow> False
            | Some n \<Rightarrow> pathBefore g (gn_children n) xs ys)
      else indexOf x ids < indexOf y ids)"
| "pathBefore g ids xs ys = False"

text \<open>The edges that the builder records for a tree: one per entry below the top level,
  from the id of the entry that holds it to its own id, in the order of the visits.\<close>

fun depEdges :: "string \<Rightarrow> DependencyNode \<Rightarrow> (string \<times> string) list"
and childEdges :: "string \<Rightarrow> (string \<times> DependencyNode) list \<Rightarrow> (string \<times> string) list"
where
  "depEdges parentId (DependencyNode name version resolved deps) =
     (case deps of None \<Rightarrow> [] | Some cs \<Rightarrow> childEdges parentId cs)"
| "childEdges parentId [] = []"
| "childEdges parentId ((key, dep) # rest) =
     (parentId, entryKey (key, dep)) # depEdges (entryKey (key, dep)) dep @ childEdges parentId rest"

definition treeEdges :: "DependencyTree \<Rightarrow> (string \<times> string) list" where
  "treeEdges t = concat (map (\<lambda>e. depEdges (entryKey e) (snd e)) (dt_dependencies t))"

text \<open>A project in which \<open>a\<close> occurs twice on one chain: \<open>x\<close> depends on \<open>a@1\<close>, which
  depends on \<open>b\<close>, which depends on \<open>a@2\<close>.\<close>

definition nestedTree :: DependencyTree where
  "nestedTree = \<lparr>dt_name = ''app'', dt_version = ''1.0.0'',
     dt_dependencies =
       [(''x'', DependencyNode ''x'' ''1'' []
          (Some [(''a'', DependencyNode ''a'' ''1'' []
             (Some [(''b'', DependencyNode ''b'' ''1'' []
                (Some [(''a'', DependencyNode ''a'' ''2'' [] None)]))]))]))],
     dt_packages = []\<rparr>"

text \<open>Two top-level entries with different map keys and the same id \<open>a@1@2\<close>.\<close>

definition dupRootTree :: DependencyTree where
  "dupRootTree = \<lparr>dt_name = ''app'', dt_version = ''1.0.0'',
     dt_dependencies =
       [(''a'', DependencyNode ''a'' ''1@2'' [] None),
        (''a@1'', DependencyNode ''a@1'' ''2'' [] None)],
     dt_packages = []\<rparr>"

text \<open>
  Auxiliary predicates for the query. \<open>childrenDistinct\<close>: no children list has a
  duplicate. \<open>pathsSpec\<close>: a list of paths holds exactly the first-match paths from \<open>ids\<close>,
  in traversal order when no list that is iterated has a duplicate. \<open>ranked\<close>: the rank
  decreases along every children link, so the children links have no cycle.
\<close>

definition childrenDistinct :: "DependencyGraph \<Rightarrow> bool" where
  "childrenDistinct g \<longleftrightarrow> (\<forall>k n. map_of (nodes g) k = Some n \<longrightarrow> distinct (gn_children n))"

definition pathsSpec :: "DependencyGraph \<Rightarrow> string \<Rightarrow> string list \<Rightarrow> string list list \<Rightarrow> bool" where
  "pathsSpec g target ids qs \<longleftrightarrow>
     set qs = {q. firstMatchPath g target ids q}
     \<and> (childrenDistinct g \<and> distinct ids \<longrightarrow> sorted_wrt (pathBefore g ids) qs)"

definition ranked :: "DependencyGraph \<Rightarrow> (string \<Rightarrow> nat) \<Rightarrow> bool" where
  "ranked g rank \<longleftrightarrow>
     (\<forall>k n c. map_of (nodes g) k = Some n \<and> c \<in> set (gn_children n) \<longrightarrow> rank c < rank k)"

text \<open>A rank for the diamond: \<open>package-b\<close> below the two packages that depend on it.\<close>

definition diamondRank :: "string \<Rightarrow> nat" where
  "diamondRank k = (if k = ''package-b@2.0.0'' then 0 else 1)"

text \<open>Two top-level packages that depend on each other: the tree is finite, its dedup
  keys form a cycle.\<close>

definition cycleTree :: DependencyTree where
  "cycleTree = \<lparr>dt_name = ''app'', dt_version = ''1.0.0'',
     dt_dependencies =
       [(''a'', DependencyNode ''a'' ''1'' [] (Some [(''b'', DependencyNode ''b'' ''1'' [] None)])),
        (''b'', DependencyNode ''b'' ''1'' [] (Some [(''a'', DependencyNode ''a'' ''1'' [] None)]))],
     dt_packages = []\<rparr>"

section \<open>Properties of the graph builder\<close>

subsection \<open>Frame: what a visit leaves alone\<close>

lemma children_ext_nil: "\<exists>extra. old = old\<lparr>gn_children := gn_children old @ extra\<rparr>"
  by (rule exI [of _ "[]"]) simp

lemma nodesExtend_refl: "nodesExtend g g"
  unfolding nodesExtend_def by (simp add: children_ext_nil)

lemma nodesExtend_trans:
  assumes "nodesExtend g1 g2" and "nodesExtend g2 g3"
  shows "nodesExtend g1 g3"
  unfolding nodesExtend_def
proof (intro allI impI)
  fix k old assume "map_of (nodes g1) k = Some old"
  with assms(1) obtain e1 where
    1: "map_of (nodes g2) k = Some (old\<lparr>gn_children := gn_children old @ e1\<rparr>)"
    unfolding nodesExtend_def by blast
  with assms(2) obtain e2 where
    "map_of (nodes g3) k =
       Some (old\<lparr>gn_children := gn_children old @ e1,
                 gn_children := gn_children (old\<lparr>gn_children := gn_children old @ e1\<rparr>) @ e2\<rparr>)"
    unfolding nodesExtend_def by blast
  then have "map_of (nodes g3) k = Some (old\<lparr>gn_children := gn_children old @ (e1 @ e2)\<rparr>)"
    by simp
  then show "\<exists>extra. map_of (nodes g3) k = Some (old\<lparr>gn_children := gn_children old @ extra\<rparr>)"
    by blast
qed

lemma in_keys_iff: "k \<in> fst ` set m \<longleftrightarrow> map_of m k \<noteq> None"
  by (simp add: map_of_eq_None_iff)

lemma addNode_extend: "nodesExtend g (addNode dep nodeId depth parent g isDev)"
  unfolding nodesExtend_def addNode_def
  by (auto simp: update_conv' in_keys_iff children_ext_nil)

lemma addEdge_extend: "nodesExtend g (addEdge parent nodeId g)"
  unfolding nodesExtend_def addEdge_def
  by (auto simp: update_conv' children_ext_nil split: option.splits)

lemma visitNode_extend: "nodesExtend g (visitNode dep nodeId depth parent g isDev)"
  unfolding visitNode_def
  by (rule nodesExtend_trans [OF addNode_extend addEdge_extend])

lemma build_extend:
  "nodesExtend g (buildNodeRecursive dep nodeId depth parent g isDev)"
  "nodesExtend g (buildChildren cs nodeId depth g isDev)"
proof (induction dep nodeId depth parent g isDev and cs nodeId depth g isDev
       rule: buildNodeRecursive_buildChildren.induct)
  case (1 name version resolved deps nodeId depth parent g isDev)
  show ?case
  proof (cases deps)
    case None
    then show ?thesis by (simp add: visitNode_extend)
  next
    case (Some cs)
    with "1" show ?thesis
      by (auto intro: nodesExtend_trans [OF visitNode_extend])
  qed
next
  case (2 nodeId depth g isDev)
  show ?case by (simp add: nodesExtend_refl)
next
  case (3 childName childDep rest nodeId depth g isDev)
  then show ?case by (auto intro: nodesExtend_trans)
qed

lemma addNode_revisit:
  "map_of (nodes g) nodeId = Some old \<Longrightarrow> addNode dep nodeId depth parent g isDev = g"
  by (simp add: addNode_def in_keys_iff)

lemma update_same_keys: "map_of m k = Some v \<Longrightarrow> map fst (AList.update k v' m) = map fst m"
  by (induction m) auto

text \<open>
  Claim C5 (first seen wins). When \<open>buildNodeRecursive\<close> is called for a key \<open>nodeId\<close>
  that the node table already holds, the visit itself (before the loop over the
  dependencies) changes no entry other than the parent's, changes no field of any entry
  other than its children list, adds and removes no key, pushes \<open>nodeId\<close> on the parent's
  children only if it is not there yet, pushes exactly one edge when there is a parent and
  leaves the roots alone; and the whole call, recursion included, leaves the depth, the
  parent and the dev flag of every node that was already in the table (the revisited one
  among them) unchanged.
\<close>

theorem first_seen_wins:
  assumes "map_of (nodes g) nodeId = Some old"
  shows "(\<forall>k. Some k \<noteq> parent \<longrightarrow>
            map_of (nodes (visitNode dep nodeId depth parent g isDev)) k = map_of (nodes g) k)
       \<and> (\<forall>k n. map_of (nodes g) k = Some n \<longrightarrow>
            (\<exists>cs. map_of (nodes (visitNode dep nodeId depth parent g isDev)) k
                    = Some (n\<lparr>gn_children := cs\<rparr>)))
       \<and> (\<forall>p pn. parent = Some p \<and> p \<noteq> [] \<and> map_of (nodes g) p = Some pn \<longrightarrow>
            map_of (nodes (visitNode dep nodeId depth parent g isDev)) p
              = Some (pn\<lparr>gn_children := (if nodeId \<in> set (gn_children pn) then gn_children pn
                                           else gn_children pn @ [nodeId])\<rparr>))
       \<and> map fst (nodes (visitNode dep nodeId depth parent g isDev)) = map fst (nodes g)
       \<and> edges (visitNode dep nodeId depth parent g isDev)
           = (case parent of None \<Rightarrow> edges g
              | Some p \<Rightarrow> if p = [] then edges g else edges g @ [(p, nodeId)])
       \<and> roots (visitNode dep nodeId depth parent g isDev) = roots g
       \<and> (\<forall>k n. map_of (nodes g) k = Some n \<longrightarrow>
            (\<exists>n'. map_of (nodes (buildNodeRecursive dep nodeId depth parent g isDev)) k = Some n'
                 \<and> gn_depth n' = gn_depth n \<and> gn_parent n' = gn_parent n
                 \<and> gn_isDevDependency n' = gn_isDevDependency n))"
proof (intro conjI)
  have v: "visitNode dep nodeId depth parent g isDev = addEdge parent nodeId g"
    using assms by (simp add: visitNode_def addNode_revisit)
  show "\<forall>k. Some k \<noteq> parent \<longrightarrow>
            map_of (nodes (visitNode dep nodeId depth parent g isDev)) k = map_of (nodes g) k"
    unfolding v addEdge_def by (auto simp: update_conv' split: option.splits)
  show "\<forall>k n. map_of (nodes g) k = Some n \<longrightarrow>
            (\<exists>cs. map_of (nodes (visitNode dep nodeId depth parent g isDev)) k
                    = Some (n\<lparr>gn_children := cs\<rparr>))"
    using visitNode_extend [of g dep nodeId depth parent isDev]
    unfolding nodesExtend_def by blast
  show "\<forall>p pn. parent = Some p \<and> p \<noteq> [] \<and> map_of (nodes g) p = Some pn \<longrightarrow>
            map_of (nodes (visitNode dep nodeId depth parent g isDev)) p
              = Some (pn\<lparr>gn_children := (if nodeId \<in> set (gn_children pn) then gn_children pn
                                           else gn_children pn @ [nodeId])\<rparr>)"
    unfolding v addEdge_def by (auto simp: update_conv')
  show "map fst (nodes (visitNode dep nodeId depth parent g isDev)) = map fst (nodes g)"
    unfolding v addEdge_def by (auto simp: update_same_keys split: option.splits)
  show "edges (visitNode dep nodeId depth parent g isDev)
           = (case parent of None \<Rightarrow> edges g
              | Some p \<Rightarrow> if p = [] then edges g else edges g @ [(p, nodeId)])"
    unfolding v addEdge_def by (auto split: option.splits)
  show "roots (visitNode dep nodeId depth parent g isDev) = roots g"
    unfolding v addEdge_def by (auto split: option.splits)
  show "\<forall>k n. map_of (nodes g) k = Some n \<longrightarrow>
            (\<exists>n'. map_of (nodes (buildNodeRecursive dep nodeId depth parent g isDev)) k = Some n'
                 \<and> gn_depth n' = gn_depth n \<and> gn_parent n' = gn_parent n
                 \<and> gn_isDevDependency n' = gn_isDevDependency n)"
  proof (intro allI impI)
    fix k n assume "map_of (nodes g) k = Some n"
    with build_extend(1) [of g dep nodeId depth parent isDev]
    obtain extra where
      "map_of (nodes (buildNodeRecursive dep nodeId depth parent g isDev)) k
         = Some (n\<lparr>gn_children := gn_children n @ extra\<rparr>)"
      unfolding nodesExtend_def by blast
    then show "\<exists>n'. map_of (nodes (buildNodeRecursive dep nodeId depth parent g isDev)) k = Some n'
                 \<and> gn_depth n' = gn_depth n \<and> gn_parent n' = gn_parent n
                 \<and> gn_isDevDependency n' = gn_isDevDependency n"
      by simp
  qed
qed

text \<open>The frame property at a revisit of \<open>b@2\<close> below \<open>a@1\<close>, at depth 1 and as a dev
  dependency: the node keeps depth 0, no parent and the non-dev flag.\<close>

theorem first_seen_wins_witness:
  "map_of (nodes exGraph) ''b@2'' = Some exNodeB
   \<and> (\<exists>n'. map_of (nodes (buildNodeRecursive (DependencyNode ''b'' ''2'' [] None) ''b@2'' 1
               (Some ''a@1'') exGraph True)) ''b@2'' = Some n'
         \<and> gn_depth n' = 0 \<and> gn_parent n' = None \<and> gn_isDevDependency n' = False)"
proof -
  have h: "map_of (nodes exGraph) ''b@2'' = Some exNodeB"
    by (simp add: exGraph_def)
  from first_seen_wins [OF h, of "Some ''a@1''" "DependencyNode ''b'' ''2'' [] None" 1 True]
  have "\<exists>n'. map_of (nodes (buildNodeRecursive (DependencyNode ''b'' ''2'' [] None) ''b@2'' 1
               (Some ''a@1'') exGraph True)) ''b@2'' = Some n'
         \<and> gn_depth n' = gn_depth exNodeB \<and> gn_parent n' = gn_parent exNodeB
         \<and> gn_isDevDependency n' = gn_isDevDependency exNodeB"
    using h by blast
  then show ?thesis using h by (simp add: exNodeB_def)
qed

subsection \<open>Invariants of the builder\<close>

lemma build_invariant:
  assumes step: "\<And>dep nodeId depth parent g isDev. I g \<Longrightarrow> I (visitNode dep nodeId depth parent g isDev)"
  shows "I g \<Longrightarrow> I (buildNodeRecursive dep nodeId depth parent g isDev)"
    and "I g \<Longrightarrow> I (buildChildren cs nodeId depth g isDev)"
proof (induction dep nodeId depth parent g isDev and cs nodeId depth g isDev
       rule: buildNodeRecursive_buildChildren.induct)
  case (1 name version resolved deps nodeId depth parent g isDev)
  then show ?case using step by (cases deps) auto
next
  case (2 nodeId depth g isDev)
  then show ?case by simp
next
  case (3 childName childDep rest nodeId depth g isDev)
  then show ?case by simp
qed

lemma addNode_keys: "fst ` set (nodes (addNode dep nodeId depth parent g isDev)) = insert nodeId (fst ` set (nodes g))"
  by (auto simp: addNode_def dom_update)

lemma addEdge_keys: "fst ` set (nodes (addEdge parent nodeId g)) = fst ` set (nodes g)"
  by (auto simp: addEdge_def dom_update in_keys_iff split: option.splits)

lemma visitNode_keys: "fst ` set (nodes (visitNode dep nodeId depth parent g isDev)) = insert nodeId (fst ` set (nodes g))"
  by (simp add: visitNode_def addEdge_keys addNode_keys)

lemma addNode_nodeInv: "nodeInv g \<Longrightarrow> nodeInv (addNode dep nodeId depth parent g isDev)"
  unfolding nodeInv_def addNode_def
  by (auto simp: distinct_update update_conv' dom_update in_keys_iff simp del: map_of_eq_Some_iff)

lemma addEdge_nodeInv:
  assumes "nodeInv g" and "nodeId \<in> fst ` set (nodes g)"
  shows "nodeInv (addEdge parent nodeId g)"
proof (cases parent)
  case None
  then show ?thesis using assms by (simp add: addEdge_def)
next
  case (Some p)
  show ?thesis
  proof (cases "p = []")
    case True
    then show ?thesis using assms Some by (simp add: addEdge_def)
  next
    case False
    show ?thesis
    proof (cases "map_of (nodes g) p")
      case None
      then show ?thesis using assms Some False
        unfolding nodeInv_def addEdge_def by (auto simp del: map_of_eq_Some_iff)
    next
      case (Some pn)
      then show ?thesis using assms \<open>parent = Some p\<close> False
        unfolding nodeInv_def addEdge_def
        by (auto simp: distinct_update update_conv' dom_update in_keys_iff simp del: map_of_eq_Some_iff)
    qed
  qed
qed

lemma visitNode_nodeInv: "nodeInv g \<Longrightarrow> nodeInv (visitNode dep nodeId depth parent g isDev)"
  unfolding visitNode_def
  by (rule addEdge_nodeInv [OF addNode_nodeInv]) (simp_all add: addNode_keys)

lemma build_nodeInv:
  "nodeInv g \<Longrightarrow> nodeInv (buildNodeRecursive dep nodeId depth parent g isDev)"
  by (rule build_invariant(1) [where I = nodeInv]) (rule visitNode_nodeInv)

lemma nodesExtend_keys: "nodesExtend g g' \<Longrightarrow> k \<in> fst ` set (nodes g) \<Longrightarrow> k \<in> fst ` set (nodes g')"
  unfolding nodesExtend_def in_keys_iff by fastforce

lemma reachable_mono:
  assumes ext: "nodesExtend g g'" and r: "set (roots g) \<subseteq> set (roots g')"
    and k: "k \<in> reachable g"
  shows "k \<in> reachable g'"
  using k
proof (induction rule: reachable.induct)
  case (root r)
  then show ?case using r by (auto intro: reachable.root)
next
  case (child k n c)
  from ext child.hyps(2) obtain extra where
    "map_of (nodes g') k = Some (n\<lparr>gn_children := gn_children n @ extra\<rparr>)"
    unfolding nodesExtend_def by blast
  moreover have "c \<in> set (gn_children (n\<lparr>gn_children := gn_children n @ extra\<rparr>))"
    using child.hyps(3) by simp
  ultimately show ?case using child.IH by (rule reachable.child [rotated])
qed

lemma addNode_roots: "roots (addNode dep nodeId depth parent g isDev) = roots g"
  by (simp add: addNode_def)

lemma addEdge_roots: "roots (addEdge parent nodeId g) = roots g"
  by (simp add: addEdge_def split: option.splits)

lemma visitNode_roots: "roots (visitNode dep nodeId depth parent g isDev) = roots g"
  by (simp add: visitNode_def addNode_roots addEdge_roots)

lemma build_roots:
  "roots (buildNodeRecursive dep nodeId depth parent g isDev) = roots g"
  "roots (buildChildren cs nodeId depth g isDev) = roots g"
  by (rule build_invariant [where I = "\<lambda>h. roots h = roots g"]; simp add: visitNode_roots)+

lemma edgeInv_extend:
  assumes "edgeInv g" and "nodesExtend g g'" and "set (roots g) \<subseteq> set (roots g')"
    and "edges g' = edges g"
  shows "edgeInv g'"
  using assms unfolding edgeInv_def
  by (auto intro: nodesExtend_keys reachable_mono)

lemma visitNode_reaches:
  assumes "visitPre parent nodeId g"
  shows "nodeId \<in> reachable (visitNode dep nodeId depth parent g isDev)"
proof (cases parent)
  case None
  then show ?thesis using assms
    by (auto simp: visitPre_def visitNode_roots intro: reachable.root)
next
  case (Some p)
  let ?g0 = "addNode dep nodeId depth parent g isDev"
  let ?g1 = "visitNode dep nodeId depth parent g isDev"
  from assms Some have p: "p \<noteq> []" "p \<in> fst ` set (nodes g)" "p \<in> reachable g"
    by (simp_all add: visitPre_def)
  have "p \<in> fst ` set (nodes ?g0)" using p(2) by (simp add: addNode_keys)
  then obtain pn where pn: "map_of (nodes ?g0) p = Some pn"
    unfolding in_keys_iff by blast
  have "\<exists>pn'. map_of (nodes ?g1) p = Some pn' \<and> nodeId \<in> set (gn_children pn')"
    using pn p(1) Some unfolding visitNode_def addEdge_def
    by (auto simp: update_conv')
  moreover have "p \<in> reachable ?g1"
    by (rule reachable_mono [OF visitNode_extend _ p(3)]) (simp add: visitNode_roots)
  ultimately show ?thesis by (blast intro: reachable.child)
qed

lemma visitNode_edges:
  "edges (visitNode dep nodeId depth parent g isDev)
     = (case parent of None \<Rightarrow> edges g
        | Some p \<Rightarrow> if p = [] then edges g else edges g @ [(p, nodeId)])"
  by (simp add: visitNode_def addEdge_def addNode_def split: option.splits)

lemma visitNode_edgeInv:
  assumes inv: "edgeInv g" and pre: "visitPre parent nodeId g"
  shows "edgeInv (visitNode dep nodeId depth parent g isDev)"
  unfolding edgeInv_def
proof (intro ballI, clarify)
  let ?g1 = "visitNode dep nodeId depth parent g isDev"
  fix p c assume pc: "(p, c) \<in> set (edges ?g1)"
  have old: "(p, c) \<in> set (edges g) \<Longrightarrow>
      p \<in> fst ` set (nodes ?g1) \<and> c \<in> fst ` set (nodes ?g1) \<and> c \<in> reachable ?g1"
    using inv unfolding edgeInv_def
    by (auto simp: visitNode_keys visitNode_roots intro: reachable_mono [OF visitNode_extend])
  show "p \<in> fst ` set (nodes ?g1) \<and> c \<in> fst ` set (nodes ?g1) \<and> c \<in> reachable ?g1"
  proof (cases "(p, c) \<in> set (edges g)")
    case True
    then show ?thesis by (rule old)
  next
    case False
    with pc have new: "parent = Some p" "c = nodeId" "p \<noteq> []"
      by (auto simp: visitNode_edges split: option.splits if_splits)
    with pre have "p \<in> fst ` set (nodes g)" by (simp add: visitPre_def)
    then show ?thesis using new visitNode_reaches [OF pre, of dep depth isDev]
      by (simp add: visitNode_keys)
  qed
qed

lemma createKey_nonempty: "createKey name version \<noteq> []"
  by (simp add: createKey_def)

lemma build_edgeInv:
  "edgeInv g \<Longrightarrow> visitPre parent nodeId g \<Longrightarrow> nodeId \<noteq> []
     \<Longrightarrow> edgeInv (buildNodeRecursive dep nodeId depth parent g isDev)"
  "edgeInv g \<Longrightarrow> visitPre (Some nodeId) c g
     \<Longrightarrow> edgeInv (buildChildren cs nodeId depth g isDev)"
proof (induction dep nodeId depth parent g isDev and cs nodeId depth g isDev
       arbitrary: and c rule: buildNodeRecursive_buildChildren.induct)
  case (1 name version resolved deps nodeId depth parent g isDev)
  let ?g1 = "visitNode (DependencyNode name version resolved deps) nodeId depth parent g isDev"
  have inv1: "edgeInv ?g1" using "1.prems" by (simp add: visitNode_edgeInv)
  show ?case
  proof (cases deps)
    case None
    then show ?thesis using inv1 by simp
  next
    case (Some cs)
    have "visitPre (Some nodeId) c ?g1" for c
      using "1.prems"(2,3) visitNode_reaches [OF "1.prems"(2)]
      by (simp add: visitPre_def visitNode_keys)
    with "1.IH" [OF refl Some inv1] Some show ?thesis by simp
  qed
next
  case (2 nodeId depth g isDev)
  then show ?case by simp
next
  case (3 childName childDep rest nodeId depth g isDev)
  let ?cid = "createKey childName (dn_version childDep)"
  let ?g2 = "buildNodeRecursive childDep ?cid (depth + 1) (Some nodeId) g isDev"
  from "3.prems" have pre: "visitPre (Some nodeId) ?cid g"
    by (simp add: visitPre_def)
  have inv2: "edgeInv ?g2"
    by (rule "3.IH"(1) [OF "3.prems"(1) pre createKey_nonempty])
  have "visitPre (Some nodeId) c ?g2"
    using "3.prems"(2) build_extend(1) [of g childDep ?cid "depth + 1" "Some nodeId" isDev]
    by (auto simp: visitPre_def build_roots intro: nodesExtend_keys reachable_mono)
  with "3.IH"(2) [OF inv2] show ?case by simp
qed

subsection \<open>Well-formedness of the built graph\<close>

lemma emptyGraph_inv:
  "nodeInv \<lparr>nodes = [], edges = [], roots = []\<rparr>" "edgeInv \<lparr>nodes = [], edges = [], roots = []\<rparr>"
  by (simp_all add: nodeInv_def edgeInv_def)

lemma nodesExtend_roots_update: "nodesExtend g (g\<lparr>roots := rs\<rparr>)"
  unfolding nodesExtend_def by (simp add: children_ext_nil)

lemma buildRoots_inv:
  "nodeInv g \<Longrightarrow> edgeInv g \<Longrightarrow> nodeInv (buildRoots ds g) \<and> edgeInv (buildRoots ds g)"
proof (induction ds arbitrary: g)
  case Nil
  then show ?case by simp
next
  case (Cons e ds)
  obtain name dep where e: "e = (name, dep)" by (cases e)
  let ?id = "createKey name (dn_version dep)"
  let ?g0 = "g\<lparr>roots := roots g @ [?id]\<rparr>"
  let ?g1 = "buildNodeRecursive dep ?id 0 None ?g0 False"
  have n0: "nodeInv ?g0" using Cons.prems(1) by (simp add: nodeInv_def)
  have e0: "edgeInv ?g0"
    by (rule edgeInv_extend [OF Cons.prems(2) nodesExtend_roots_update]) auto
  have "visitPre None ?id ?g0" by (simp add: visitPre_def)
  with e0 have "edgeInv ?g1" by (rule build_edgeInv(1)) (rule createKey_nonempty)
  moreover have "nodeInv ?g1" using n0 by (rule build_nodeInv)
  ultimately show ?case using Cons.IH [of ?g1] by (simp add: e Let_def)
qed

text \<open>
  Claim C6 (well-formedness). In every graph that \<open>buildGraph\<close> returns, each id in a
  node's children list is a key of the node table, both endpoints of each edge are keys of
  the node table, and the target of each edge is reachable from a root along children
  links.
\<close>

theorem buildGraph_wellFormed:
  "(\<forall>(k, n) \<in> set (nodes (buildGraph t)). \<forall>c \<in> set (gn_children n).
       c \<in> fst ` set (nodes (buildGraph t)))
   \<and> (\<forall>(p, c) \<in> set (edges (buildGraph t)).
       p \<in> fst ` set (nodes (buildGraph t)) \<and> c \<in> fst ` set (nodes (buildGraph t))
       \<and> c \<in> reachable (buildGraph t))"
proof -
  have inv: "nodeInv (buildGraph t)" "edgeInv (buildGraph t)"
    using buildRoots_inv [OF emptyGraph_inv] by (simp_all add: buildGraph_def)
  from inv(1) have "\<forall>(k, n) \<in> set (nodes (buildGraph t)). \<forall>c \<in> set (gn_children n).
       c \<in> fst ` set (nodes (buildGraph t))"
    unfolding nodeInv_def by fastforce
  with inv(2) show ?thesis unfolding edgeInv_def by blast
qed

text \<open>In the diamond, the second edge into \<open>package-b\<close> joins two keys and ends in a
  reachable node.\<close>

theorem buildGraph_wellFormed_witness:
  "(''package-c@1.0.0'', ''package-b@2.0.0'') \<in> set (edges (buildGraph diamondTree))
   \<and> ''package-c@1.0.0'' \<in> fst ` set (nodes (buildGraph diamondTree))
   \<and> ''package-b@2.0.0'' \<in> fst ` set (nodes (buildGraph diamondTree))
   \<and> ''package-b@2.0.0'' \<in> reachable (buildGraph diamondTree)"
proof -
  have h: "(''package-c@1.0.0'', ''package-b@2.0.0'') \<in> set (edges (buildGraph diamondTree))"
    by code_simp
  with buildGraph_wellFormed [of diamondTree] show ?thesis by blast
qed

subsection \<open>The node table of the built graph\<close>

lemma build_keys:
  "fst ` set (nodes (buildNodeRecursive dep nodeId depth parent g isDev))
     = fst ` set (nodes g) \<union> {nodeId} \<union> entryKey ` set (depEntries dep)"
  "fst ` set (nodes (buildChildren cs nodeId depth g isDev))
     = fst ` set (nodes g) \<union> entryKey ` set (allEntries cs)"
proof (induction dep nodeId depth parent g isDev and cs nodeId depth g isDev
       rule: buildNodeRecursive_buildChildren.induct)
  case (1 name version resolved deps nodeId depth parent g isDev)
  then show ?case by (cases deps) (auto simp: visitNode_keys)
next
  case (2 nodeId depth g isDev)
  then show ?case by simp
next
  case (3 childName childDep rest nodeId depth g isDev)
  then show ?case by (auto simp: entryKey_def)
qed

lemma buildRoots_keys:
  "fst ` set (nodes (buildRoots ds g)) = fst ` set (nodes g) \<union> entryKey ` set (allEntries ds)"
proof (induction ds arbitrary: g)
  case Nil
  then show ?case by simp
next
  case (Cons e ds)
  obtain name dep where e: "e = (name, dep)" by (cases e)
  show ?case by (auto simp: e Let_def Cons.IH build_keys entryKey_def)
qed

lemma visitNode_nodesFrom:
  assumes "nodesFrom E g" and "(key, dep) \<in> E" and "nodeId = entryKey (key, dep)"
  shows "nodesFrom E (visitNode dep nodeId depth parent g isDev)"
proof -
  have "nodesFrom E (addNode dep nodeId depth parent g isDev)"
    using assms unfolding nodesFrom_def addNode_def
    by (auto simp: update_conv')
  then show ?thesis
    unfolding visitNode_def nodesFrom_def addEdge_def
    by (auto simp: update_conv' split: option.splits)
qed

lemma build_nodesFrom:
  "nodesFrom E g \<Longrightarrow> (key, dep) \<in> E \<Longrightarrow> nodeId = entryKey (key, dep)
     \<Longrightarrow> set (depEntries dep) \<subseteq> E
     \<Longrightarrow> nodesFrom E (buildNodeRecursive dep nodeId depth parent g isDev)"
  "nodesFrom E g \<Longrightarrow> set (allEntries cs) \<subseteq> E
     \<Longrightarrow> nodesFrom E (buildChildren cs nodeId depth g isDev)"
proof (induction dep nodeId depth parent g isDev and cs nodeId depth g isDev
       arbitrary: key and rule: buildNodeRecursive_buildChildren.induct)
  case (1 name version resolved deps nodeId depth parent g isDev)
  let ?d = "DependencyNode name version resolved deps"
  have v: "nodesFrom E (visitNode ?d nodeId depth parent g isDev)"
    using "1.prems"(1,2,3) by (rule visitNode_nodesFrom)
  show ?case
  proof (cases deps)
    case None
    then show ?thesis using v by simp
  next
    case (Some cs)
    with "1.IH" [OF refl Some v] "1.prems"(4) show ?thesis by simp
  qed
next
  case (2 nodeId depth g isDev)
  then show ?case by simp
next
  case (3 childName childDep rest nodeId depth g isDev)
  from "3.prems"(2) have sub: "(childName, childDep) \<in> E" "set (depEntries childDep) \<subseteq> E"
    "set (allEntries rest) \<subseteq> E" by auto
  have "nodesFrom E (buildNodeRecursive childDep (createKey childName (dn_version childDep))
          (depth + 1) (Some nodeId) g isDev)"
    by (rule "3.IH"(1) [OF "3.prems"(1) sub(1) _ sub(2)]) (simp add: entryKey_def)
  from "3.IH"(2) [OF this sub(3)] show ?case by simp
qed

lemma buildRoots_nodesFrom:
  "nodesFrom E g \<Longrightarrow> set (allEntries ds) \<subseteq> E \<Longrightarrow> nodesFrom E (buildRoots ds g)"
proof (induction ds arbitrary: g)
  case Nil
  then show ?case by simp
next
  case (Cons e ds)
  obtain name dep where e: "e = (name, dep)" by (cases e)
  from Cons.prems(2) have sub: "(name, dep) \<in> E" "set (depEntries dep) \<subseteq> E"
    "set (allEntries ds) \<subseteq> E" by (auto simp: e)
  let ?id = "createKey name (dn_version dep)"
  have "nodesFrom E (g\<lparr>roots := roots g @ [?id]\<rparr>)"
    using Cons.prems(1) by (simp add: nodesFrom_def)
  then have "nodesFrom E (buildNodeRecursive dep ?id 0 None (g\<lparr>roots := roots g @ [?id]\<rparr>) False)"
    using sub(1) _ sub(2) by (rule build_nodesFrom(1)) (simp add: entryKey_def)
  from Cons.IH [OF this sub(3)] show ?case by (simp add: e Let_def)
qed

lemma createKey_inject:
  assumes "createKey n v = createKey n' v'" and "CHR ''@'' \<notin> set v" and "CHR ''@'' \<notin> set v'"
  shows "n = n' \<and> v = v'"
proof -
  from assms(1) have eq: "n @ CHR ''@'' # v = n' @ CHR ''@'' # v'"
    by (simp add: createKey_def)
  then show ?thesis using assms(2,3)
    by (auto simp: append_eq_append_conv2 append_eq_Cons_conv Cons_eq_append_conv)
qed

text \<open>
  Claim C1, amended. For every dependency tree in which every map key, at every level,
  equals the name of the node stored under it, the node table of \<open>buildGraph\<close> has distinct
  keys, and its keys are exactly the dedup keys \<open>name@version\<close> of the (name, version)
  pairs occurring anywhere in the tree; every node is stored under its own id, which is
  the dedup key of its name and version, a pair of the tree. When no version contains
  \<open>@\<close> (so that the dedup key determines the pair), the table has exactly as many entries
  as the tree has distinct pairs, and the entry of each pair carries that name and
  version.
\<close>

theorem buildGraph_nodes_dedup:
  assumes "keysAgree t"
  shows "distinct (map fst (nodes (buildGraph t)))
    \<and> fst ` set (nodes (buildGraph t)) = (\<lambda>(n, v). createKey n v) ` set (treePairs t)
    \<and> (\<forall>(k, gn) \<in> set (nodes (buildGraph t)).
          gn_id gn = k \<and> k = createKey (gn_name gn) (gn_version gn)
          \<and> (gn_name gn, gn_version gn) \<in> set (treePairs t))
    \<and> ((\<forall>(n, v) \<in> set (treePairs t). CHR ''@'' \<notin> set v) \<longrightarrow>
          length (nodes (buildGraph t)) = card (set (treePairs t))
          \<and> (\<forall>(n, v) \<in> set (treePairs t).
                \<exists>gn. map_of (nodes (buildGraph t)) (createKey n v) = Some gn
                     \<and> gn_name gn = n \<and> gn_version gn = v))"
proof -
  let ?g = "buildGraph t"
  let ?E = "set (allEntries (dt_dependencies t))"
  let ?key = "\<lambda>(n, v). createKey n v"
  have agree: "\<And>k d. (k, d) \<in> ?E \<Longrightarrow> k = dn_name d"
    using assms by (auto simp: keysAgree_def list_all_iff)
  have inv: "nodeInv ?g"
    using buildRoots_inv [OF emptyGraph_inv] by (simp add: buildGraph_def)
  then have dist: "distinct (map fst (nodes ?g))" by (simp add: nodeInv_def)
  have keys0: "fst ` set (nodes ?g) = entryKey ` ?E"
    by (simp add: buildGraph_def buildRoots_keys)
  have "entryKey ` ?E = ?key ` set (treePairs t)"
    using agree by (force simp: treePairs_def entryKey_def image_iff)
  with keys0 have keys: "fst ` set (nodes ?g) = ?key ` set (treePairs t)" by simp
  have origin: "nodesFrom ?E ?g"
    unfolding buildGraph_def by (rule buildRoots_nodesFrom) (simp_all add: nodesFrom_def)
  have entries: "gn_id gn = k \<and> k = createKey (gn_name gn) (gn_version gn)
          \<and> (gn_name gn, gn_version gn) \<in> set (treePairs t)"
    if "(k, gn) \<in> set (nodes ?g)" for k gn
  proof -
    from that dist have m: "map_of (nodes ?g) k = Some gn" by simp
    with inv have "gn_id gn = k" unfolding nodeInv_def by blast
    moreover from origin m obtain e where e: "e \<in> ?E" "k = entryKey e"
      "gn_name gn = dn_name (snd e)" "gn_version gn = dn_version (snd e)"
      unfolding nodesFrom_def by blast
    moreover from e(1) agree [of "fst e" "snd e"] have "fst e = dn_name (snd e)" by simp
    moreover from e(1) have "(dn_name (snd e), dn_version (snd e)) \<in> set (treePairs t)"
      unfolding treePairs_def set_map by (rule rev_image_eqI) (simp add: case_prod_unfold)
    ultimately show ?thesis by (simp add: entryKey_def)
  qed
  have inj: "length (nodes ?g) = card (set (treePairs t))
          \<and> (\<forall>(n, v) \<in> set (treePairs t).
                \<exists>gn. map_of (nodes ?g) (createKey n v) = Some gn
                     \<and> gn_name gn = n \<and> gn_version gn = v)"
    if noat: "\<forall>(n, v) \<in> set (treePairs t). CHR ''@'' \<notin> set v"
  proof
    have "inj_on ?key (set (treePairs t))"
      using noat by (auto simp: inj_on_def dest: createKey_inject)
    then have "card (?key ` set (treePairs t)) = card (set (treePairs t))"
      by (rule card_image)
    moreover have "length (nodes ?g) = card (fst ` set (nodes ?g))"
      using dist by (metis distinct_card length_map set_map)
    ultimately show "length (nodes ?g) = card (set (treePairs t))" using keys by simp
    show "\<forall>(n, v) \<in> set (treePairs t).
                \<exists>gn. map_of (nodes ?g) (createKey n v) = Some gn
                     \<and> gn_name gn = n \<and> gn_version gn = v"
    proof (clarify)
      fix n v assume nv: "(n, v) \<in> set (treePairs t)"
      then have "createKey n v \<in> fst ` set (nodes ?g)" unfolding keys by force
      then obtain gn where gn: "map_of (nodes ?g) (createKey n v) = Some gn"
        unfolding in_keys_iff by blast
      then have "(createKey n v, gn) \<in> set (nodes ?g)" by (rule map_of_SomeD)
      from entries [OF this] have k: "createKey n v = createKey (gn_name gn) (gn_version gn)"
        and p: "(gn_name gn, gn_version gn) \<in> set (treePairs t)" by simp_all
      from noat nv p have "CHR ''@'' \<notin> set v" "CHR ''@'' \<notin> set (gn_version gn)" by auto
      with k have "n = gn_name gn \<and> v = gn_version gn" by (rule createKey_inject)
      with gn show "\<exists>gn. map_of (nodes ?g) (createKey n v) = Some gn
                     \<and> gn_name gn = n \<and> gn_version gn = v" by simp
    qed
  qed
  from dist keys entries inj show ?thesis by blast
qed

text \<open>
  Claim C1 as stated asks the agreement of keys and names of the top-level map only. In
  \<open>aliasTree\<close> the top-level key is the node's name, the pair (\<open>b\<close>, \<open>2\<close>) occurs in the
  tree, and no node is keyed \<open>b@2\<close>: the node is keyed by its map key, \<open>x@2\<close>.
\<close>

theorem buildGraph_nodes_top_keys_counterexample:
  "topKeysAgree aliasTree
   \<and> (''b'', ''2'') \<in> set (treePairs aliasTree)
   \<and> createKey ''b'' ''2'' \<notin> fst ` set (nodes (buildGraph aliasTree))
   \<and> map fst (nodes (buildGraph aliasTree)) = [''a@1'', ''x@2'']"
  by code_simp

text \<open>The diamond has three distinct pairs and three nodes.\<close>

theorem buildGraph_nodes_dedup_witness:
  "keysAgree diamondTree
   \<and> distinct (map fst (nodes (buildGraph diamondTree)))
   \<and> fst ` set (nodes (buildGraph diamondTree))
       = (\<lambda>(n, v). createKey n v) ` set (treePairs diamondTree)
   \<and> length (nodes (buildGraph diamondTree)) = card (set (treePairs diamondTree))
   \<and> length (nodes (buildGraph diamondTree)) = 3"
proof -
  have h: "keysAgree diamondTree" by code_simp
  have a: "\<forall>(n, v) \<in> set (treePairs diamondTree). CHR ''@'' \<notin> set v" by code_simp
  have l: "length (nodes (buildGraph diamondTree)) = 3" by code_simp
  from buildGraph_nodes_dedup [OF h] a l show ?thesis using h by blast
qed

subsection \<open>Package references\<close>

lemma split_no_sep: "sep \<notin> set s \<Longrightarrow> split sep s = [s]"
  by (induction s) auto

lemma split_at_sep: "sep \<notin> set s1 \<Longrightarrow> split sep (s1 @ sep # s2) = s1 # split sep s2"
  by (induction s1) auto

lemma encodeChar_at: "encodeChar CHR ''@'' = ''%40''"
  by (simp add: encodeChar_def unreserved_def hexDigit_def)

lemma encodeURIComponent_unreserved:
  "\<forall>c \<in> set s. unreserved c \<Longrightarrow> encodeURIComponent s = s"
  by (induction s) (auto simp: encodeURIComponent_def encodeChar_def)

text \<open>
  Claim C3, amended. For a scoped name \<open>@scope/pkgname\<close> (neither part containing a
  slash) the package reference is \<open>pkg:npm/%40\<close>, the percent-encoded scope, a slash, the
  percent-encoded package name, \<open>@\<close> and the version: the leading \<open>@\<close> of the scope is
  not stripped, it is percent-encoded with the scope, so the scope segment begins with
  \<open>%40\<close>. For a name that does not start with \<open>@\<close> the reference is \<open>pkg:npm/\<close>, the
  percent-encoded name, \<open>@\<close> and the version, which is \<open>pkg:npm/name@version\<close> when the name
  has unreserved characters only.
\<close>

theorem createBomRef_shape:
  "(CHR ''/'' \<notin> set scope \<and> CHR ''/'' \<notin> set pkg \<longrightarrow>
      createBomRef (''@'' @ scope @ ''/'' @ pkg) version
        = ''pkg:npm/%40'' @ encodeURIComponent scope @ ''/'' @ encodeURIComponent pkg
          @ ''@'' @ version)
   \<and> (take 1 name \<noteq> ''@'' \<longrightarrow>
      createBomRef name version = ''pkg:npm/'' @ encodeURIComponent name @ ''@'' @ version)
   \<and> (take 1 name \<noteq> ''@'' \<and> (\<forall>c \<in> set name. unreserved c) \<longrightarrow>
      createBomRef name version = ''pkg:npm/'' @ name @ ''@'' @ version)"
proof (intro conjI impI)
  assume a: "CHR ''/'' \<notin> set scope \<and> CHR ''/'' \<notin> set pkg"
  then have "CHR ''/'' \<notin> set (CHR ''@'' # scope)" by simp
  then have "split CHR ''/'' ((CHR ''@'' # scope) @ CHR ''/'' # pkg) = (CHR ''@'' # scope) # split CHR ''/'' pkg"
    by (rule split_at_sep)
  moreover have "split CHR ''/'' pkg = [pkg]" using a by (simp add: split_no_sep)
  ultimately have s: "split CHR ''/'' (CHR ''@'' # scope @ CHR ''/'' # pkg) = [CHR ''@'' # scope, pkg]"
    by simp
  have e: "encodeURIComponent (CHR ''@'' # scope) = ''%40'' @ encodeURIComponent scope"
    by (simp add: encodeURIComponent_def encodeChar_at)
  show "createBomRef (''@'' @ scope @ ''/'' @ pkg) version
        = ''pkg:npm/%40'' @ encodeURIComponent scope @ ''/'' @ encodeURIComponent pkg
          @ ''@'' @ version"
    by (simp add: createBomRef_def s e del: split.simps)
next
  assume "take 1 name \<noteq> ''@''"
  then show u: "createBomRef name version = ''pkg:npm/'' @ encodeURIComponent name @ ''@'' @ version"
    by (cases name) (auto simp: createBomRef_def)
next
  assume a: "take 1 name \<noteq> ''@'' \<and> (\<forall>c \<in> set name. unreserved c)"
  then have "createBomRef name version = ''pkg:npm/'' @ encodeURIComponent name @ ''@'' @ version"
    by (cases name) (auto simp: createBomRef_def)
  with a show "createBomRef name version = ''pkg:npm/'' @ name @ ''@'' @ version"
    by (simp add: encodeURIComponent_unreserved)
qed

text \<open>The references of \<open>@babel/core\<close> 7.0.0 and of \<open>lodash\<close> 4.17.21.\<close>

theorem createBomRef_shape_witness:
  "CHR ''/'' \<notin> set ''babel'' \<and> CHR ''/'' \<notin> set ''core''
   \<and> createBomRef (''@'' @ ''babel'' @ ''/'' @ ''core'') ''7.0.0''
        = ''pkg:npm/%40'' @ encodeURIComponent ''babel'' @ ''/'' @ encodeURIComponent ''core''
          @ ''@'' @ ''7.0.0''
   \<and> take 1 ''lodash'' \<noteq> ''@'' \<and> list_all unreserved ''lodash''
   \<and> createBomRef ''lodash'' ''4.17.21'' = ''pkg:npm/'' @ ''lodash'' @ ''@'' @ ''4.17.21''"
proof -
  have h1: "CHR ''/'' \<notin> set ''babel'' \<and> CHR ''/'' \<notin> set ''core''" by simp
  have h2: "take 1 ''lodash'' \<noteq> ''@'' \<and> (\<forall>c \<in> set ''lodash''. unreserved c)"
    by (simp add: unreserved_def)
  from createBomRef_shape [of "''babel''" "''core''" "''7.0.0''" "''lodash''"] h1
  have c1: "createBomRef (''@'' @ ''babel'' @ ''/'' @ ''core'') ''7.0.0''
        = ''pkg:npm/%40'' @ encodeURIComponent ''babel'' @ ''/'' @ encodeURIComponent ''core''
          @ ''@'' @ ''7.0.0''" by blast
  from createBomRef_shape [of "''babel''" "''core''" "''4.17.21''" "''lodash''"] h2
  have c2: "createBomRef ''lodash'' ''4.17.21'' = ''pkg:npm/'' @ ''lodash'' @ ''@'' @ ''4.17.21''"
    by blast
  from h2 have "list_all unreserved ''lodash''" by (simp add: list_all_iff)
  with h1 h2 c1 c2 show ?thesis by blast
qed

text \<open>
  Claim C3 as stated has the \<open>@\<close> of the scope stripped before encoding. The reference of
  \<open>@babel/core\<close> has the scope segment \<open>%40babel\<close>, not \<open>babel\<close>; and an unscoped name with a
  reserved character is encoded, not copied.
\<close>

theorem createBomRef_scope_counterexample:
  "createBomRef ''@babel/core'' ''7.0.0'' = ''pkg:npm/%40babel/core@7.0.0''
   \<and> createBomRef ''@babel/core'' ''7.0.0''
       \<noteq> ''pkg:npm/'' @ encodeURIComponent ''babel'' @ ''/'' @ encodeURIComponent ''core''
           @ ''@'' @ ''7.0.0''
   \<and> createBomRef ''a b'' ''1'' = ''pkg:npm/a%20b@1''"
  by code_simp

subsection \<open>Vulnerability embedding\<close>

lemma map_filter_eq: "List.map_filter f xs = map (\<lambda>x. the (f x)) (filter (\<lambda>x. f x \<noteq> None) xs)"
  by (induction xs) (auto simp: List.map_filter_def)

text \<open>
  Claim C7 (findings and the package set). The CycloneDX embedder returns one entry per
  finding, in order, with the finding's id; the \<open>affects\<close> list of an entry is empty when
  the dedup key of the finding is not in the package map and is the one reference
  \<open>bomRef\<close> of the package when it is. The SPDX embedder returns, in order, one annotation
  per finding whose dedup key is in the package map and none for the others; each
  annotation is of type \<open>REVIEW\<close>, on the SPDX element of the package, dated with the
  generation time.
\<close>

theorem vulnerability_embedding:
  "length (buildCycloneDxVulnerabilities vs pm) = length vs
   \<and> (\<forall>i < length vs.
        cv_id (buildCycloneDxVulnerabilities vs pm ! i) = vu_id (vs ! i)
        \<and> cv_affects (buildCycloneDxVulnerabilities vs pm ! i)
            = (case map_of pm (createKey (vu_package (vs ! i)) (vu_version (vs ! i))) of
                 None \<Rightarrow> []
               | Some m \<Rightarrow> [pm_bomRef m]))
   \<and> map (\<lambda>a. (an_spdxElementId a, an_annotationType a, an_comment a, an_annotationDate a))
         (buildSpdxAnnotations vs pm generatedAt)
       = map (\<lambda>v. (pm_spdxRef (the (map_of pm (createKey (vu_package v) (vu_version v)))),
                   ''REVIEW'',
                   vu_id v @ '' ('' @ vu_severity v @ '') - '' @ vu_description v,
                   generatedAt))
           (filter (\<lambda>v. map_of pm (createKey (vu_package v) (vu_version v)) \<noteq> None) vs)"
proof (intro conjI)
  show "length (buildCycloneDxVulnerabilities vs pm) = length vs"
    by (simp add: buildCycloneDxVulnerabilities_def)
  show "\<forall>i < length vs.
        cv_id (buildCycloneDxVulnerabilities vs pm ! i) = vu_id (vs ! i)
        \<and> cv_affects (buildCycloneDxVulnerabilities vs pm ! i)
            = (case map_of pm (createKey (vu_package (vs ! i)) (vu_version (vs ! i))) of
                 None \<Rightarrow> []
               | Some m \<Rightarrow> [pm_bomRef m])"
    by (simp add: buildCycloneDxVulnerabilities_def Let_def split: option.splits)
  show "map (\<lambda>a. (an_spdxElementId a, an_annotationType a, an_comment a, an_annotationDate a))
         (buildSpdxAnnotations vs pm generatedAt)
       = map (\<lambda>v. (pm_spdxRef (the (map_of pm (createKey (vu_package v) (vu_version v)))),
                   ''REVIEW'',
                   vu_id v @ '' ('' @ vu_severity v @ '') - '' @ vu_description v,
                   generatedAt))
           (filter (\<lambda>v. map_of pm (createKey (vu_package v) (vu_version v)) \<noteq> None) vs)"
    unfolding buildSpdxAnnotations_def map_filter_eq
    by (induction vs) (auto simp: Let_def split: option.splits)
qed

lemma demoMap_lodash:
  "map_of demoMap (createKey (vu_package demoVuln) (vu_version demoVuln))
     = Some \<lparr>pm_info = \<lparr>pi_name = ''lodash'', pi_version = ''4.17.21'',
                pi_isDevDependency = False, pi_isDirect = True\<rparr>,
              pm_bomRef = ''pkg:npm/lodash@4.17.21'', pm_spdxRef = ''SPDXRef-lodash-4.17.21''\<rparr>"
  by code_simp

lemma demoMap_ghost:
  "map_of demoMap (createKey (vu_package ghostVuln) (vu_version ghostVuln)) = None"
  by code_simp

text \<open>Of the two findings, the one for \<open>lodash\<close> resolves and the one for \<open>left-pad\<close> does
  not: CycloneDX renders both, the second with no \<open>affects\<close>; SPDX annotates the first
  only.\<close>

theorem vulnerability_embedding_witness:
  "map cv_affects (buildCycloneDxVulnerabilities [demoVuln, ghostVuln] demoMap)
     = [[''pkg:npm/lodash@4.17.21''], []]
   \<and> map (\<lambda>a. (an_spdxElementId a, an_annotationType a))
         (buildSpdxAnnotations [demoVuln, ghostVuln] demoMap ''now'')
     = [(''SPDXRef-lodash-4.17.21'', ''REVIEW'')]"
proof -
  let ?vs = "[demoVuln, ghostVuln]"
  let ?out = "buildCycloneDxVulnerabilities ?vs demoMap"
  note t = vulnerability_embedding [of ?vs demoMap "''now''"]
  from t have len: "length ?out = length ?vs" by blast
  from t have "0 < length ?vs \<longrightarrow> cv_affects (?out ! 0)
      = (case map_of demoMap (createKey (vu_package (?vs ! 0)) (vu_version (?vs ! 0))) of
           None \<Rightarrow> [] | Some m \<Rightarrow> [pm_bomRef m])" by blast
  then have "cv_affects (?out ! 0)
      = (case map_of demoMap (createKey (vu_package demoVuln) (vu_version demoVuln)) of
           None \<Rightarrow> [] | Some m \<Rightarrow> [pm_bomRef m])" by simp
  then have a0: "cv_affects (?out ! 0) = [''pkg:npm/lodash@4.17.21'']"
    unfolding demoMap_lodash by simp
  from t have "1 < length ?vs \<longrightarrow> cv_affects (?out ! 1)
      = (case map_of demoMap (createKey (vu_package (?vs ! 1)) (vu_version (?vs ! 1))) of
           None \<Rightarrow> [] | Some m \<Rightarrow> [pm_bomRef m])" by blast
  then have "cv_affects (?out ! 1)
      = (case map_of demoMap (createKey (vu_package ghostVuln) (vu_version ghostVuln)) of
           None \<Rightarrow> [] | Some m \<Rightarrow> [pm_bomRef m])" by simp
  then have a1: "cv_affects (?out ! 1) = []"
    unfolding demoMap_ghost by simp
  from len obtain x y where xy: "?out = [x, y]"
    by (cases ?out; cases "tl ?out") auto
  from a0 a1 have c: "map cv_affects ?out = [[''pkg:npm/lodash@4.17.21''], []]"
    unfolding xy by simp
  from t have "map (\<lambda>a. (an_spdxElementId a, an_annotationType a, an_comment a, an_annotationDate a))
         (buildSpdxAnnotations ?vs demoMap ''now'')
       = map (\<lambda>v. (pm_spdxRef (the (map_of demoMap (createKey (vu_package v) (vu_version v)))),
                   ''REVIEW'',
                   vu_id v @ '' ('' @ vu_severity v @ '') - '' @ vu_description v,
                   ''now''))
           (filter (\<lambda>v. map_of demoMap (createKey (vu_package v) (vu_version v)) \<noteq> None) ?vs)"
    by blast
  then have "map (\<lambda>a. (an_spdxElementId a, an_annotationType a, an_comment a, an_annotationDate a))
         (buildSpdxAnnotations ?vs demoMap ''now'')
       = [(''SPDXRef-lodash-4.17.21'', ''REVIEW'',
           vu_id demoVuln @ '' ('' @ vu_severity demoVuln @ '') - '' @ vu_description demoVuln,
           ''now'')]"
    by (simp add: demoMap_lodash demoMap_ghost)
  then have "map (\<lambda>p. (fst p, fst (snd p)))
         (map (\<lambda>a. (an_spdxElementId a, an_annotationType a, an_comment a, an_annotationDate a))
         (buildSpdxAnnotations ?vs demoMap ''now'')) = [(''SPDXRef-lodash-4.17.21'', ''REVIEW'')]"
    by simp
  then have "map (\<lambda>a. (an_spdxElementId a, an_annotationType a))
         (buildSpdxAnnotations ?vs demoMap ''now'') = [(''SPDXRef-lodash-4.17.21'', ''REVIEW'')]"
    by (simp add: comp_def)
  with c show ?thesis by simp
qed

subsection \<open>The generator's reference graph is always built\<close>

lemma addDependency_ok:
  assumes "ref \<in> fst ` set graph"
  shows "\<exists>g. addDependency graph ref child = Inr g \<and> fst ` set g = fst ` set graph"
proof -
  from assms obtain deps where "map_of graph ref = Some deps"
    unfolding in_keys_iff by blast
  then show ?thesis using assms by (auto simp: addDependency_def dom_update)
qed

lemma traverse_ok:
  "\<exists>g. traverseNode node graph = Inr g \<and> fst ` set graph \<subseteq> fst ` set g"
  "nodeRef \<in> fst ` set graph
     \<Longrightarrow> \<exists>g. traverseChildren nodeRef cs graph = Inr g \<and> fst ` set graph \<subseteq> fst ` set g"
proof (induction node graph and nodeRef cs graph rule: traverseNode_traverseChildren.induct)
  case (1 name version resolved deps graph)
  let ?ref = "createBomRef name version"
  let ?g1 = "if ?ref \<in> fst ` set graph then graph else AList.update ?ref [] graph"
  have in1: "?ref \<in> fst ` set ?g1" by (simp add: dom_update)
  have sub1: "fst ` set graph \<subseteq> fst ` set ?g1" by (auto simp: dom_update)
  show ?case
  proof (cases deps)
    case None
    then show ?thesis using sub1 by (simp add: Let_def)
  next
    case (Some cs)
    from "1.IH" [OF refl refl Some in1] obtain g where
      "traverseChildren ?ref cs ?g1 = Inr g" "fst ` set ?g1 \<subseteq> fst ` set g" by blast
    then show ?thesis using Some sub1 by (auto simp: Let_def)
  qed
next
  case (2 nodeRef graph)
  show ?case by simp
next
  case (3 nodeRef key child rest graph)
  let ?c = "createBomRef (dn_name child) (dn_version child)"
  from addDependency_ok [OF "3.prems", of ?c] obtain g1 where
    g1: "addDependency graph nodeRef ?c = Inr g1" "fst ` set g1 = fst ` set graph" by blast
  from "3.IH"(1) [OF g1(1)] obtain g2 where
    g2: "traverseNode child g1 = Inr g2" "fst ` set g1 \<subseteq> fst ` set g2" by blast
  have "nodeRef \<in> fst ` set g2" using "3.prems" g1(2) g2(2) by blast
  from "3.IH"(2) [OF g1(1) g2(1) this] obtain g3 where
    g3: "traverseChildren nodeRef rest g2 = Inr g3" "fst ` set g2 \<subseteq> fst ` set g3" by blast
  show ?case using g1 g2 g3 by auto
qed

lemma traverseRoots_ok:
  "rootRef \<in> fst ` set graph \<Longrightarrow> \<exists>g. traverseRoots rootRef ds graph = Inr g"
proof (induction ds arbitrary: graph)
  case Nil
  show ?case by simp
next
  case (Cons e ds)
  obtain key node where e: "e = (key, node)" by (cases e)
  let ?c = "createBomRef (dn_name node) (dn_version node)"
  from addDependency_ok [OF Cons.prems, of ?c] obtain g1 where
    g1: "addDependency graph rootRef ?c = Inr g1" "fst ` set g1 = fst ` set graph" by blast
  from traverse_ok(1) [of node g1] obtain g2 where
    g2: "traverseNode node g1 = Inr g2" "fst ` set g1 \<subseteq> fst ` set g2" by blast
  have "rootRef \<in> fst ` set g2" using Cons.prems g1(2) g2(2) by blast
  from Cons.IH [OF this] obtain g3 where "traverseRoots rootRef ds g2 = Inr g3" by blast
  then show ?case using g1 g2 by (auto simp: e)
qed

lemma buildDependencyGraph_ok: "\<exists>g. buildDependencyGraph tree = Inr g"
  unfolding buildDependencyGraph_def Let_def by (rule traverseRoots_ok) simp

subsection \<open>Determinism of the rendered arrays\<close>

text \<open>
  Claim C8 (two runs). Two renderings of the same scan with the same options differ in
  what they take from the environment: the random UUID and the generation time. With
  vulnerability attachment not requested, both runs return a document, the CycloneDX
  documents have the same \<open>components\<close> and \<open>dependencies\<close> and differ at most in the
  serial number and the timestamp, and the SPDX documents have the same \<open>packages\<close> and
  \<open>relationships\<close> and differ at most in the document namespace and the creation time.
\<close>

theorem rendering_deterministic:
  assumes "\<not> attachRequested options"
  shows "(\<exists>b1 b2.
            buildCycloneDxBom env scanResult t1 options = Inr b1
          \<and> buildCycloneDxBom (env\<lparr>env_randomUUID := uuid2\<rparr>) scanResult t2 options = Inr b2
          \<and> bom_components b1 = bom_components b2
          \<and> bom_dependencies b1 = bom_dependencies b2
          \<and> b2 = b1\<lparr>bom_serialNumber := bom_serialNumber b2,
                      bom_metadata := (bom_metadata b1)\<lparr>cm_timestamp := t2\<rparr>\<rparr>)
       \<and> (\<exists>d1 d2.
            buildSpdxDocument env scanResult t1 options = Inr d1
          \<and> buildSpdxDocument (env\<lparr>env_randomUUID := uuid2\<rparr>) scanResult t2 options = Inr d2
          \<and> sd_packages d1 = sd_packages d2
          \<and> sd_relationships d1 = sd_relationships d2
          \<and> d2 = d1\<lparr>sd_documentNamespace := sd_documentNamespace d2,
                      sd_creationInfo := (sd_creationInfo d1)\<lparr>ci_created := t2\<rparr>\<rparr>)"
proof -
  obtain g where g: "buildDependencyGraph (sr_dependencies scanResult) = Inr g"
    using buildDependencyGraph_ok by blast
  have c: "\<exists>b1 b2.
            buildCycloneDxBom env scanResult t1 options = Inr b1
          \<and> buildCycloneDxBom (env\<lparr>env_randomUUID := uuid2\<rparr>) scanResult t2 options = Inr b2
          \<and> bom_components b1 = bom_components b2
          \<and> bom_dependencies b1 = bom_dependencies b2
          \<and> b2 = b1\<lparr>bom_serialNumber := bom_serialNumber b2,
                      bom_metadata := (bom_metadata b1)\<lparr>cm_timestamp := t2\<rparr>\<rparr>"
    by (simp add: buildCycloneDxBom_def Let_def g toolVersion_def)
  have s: "\<exists>d1 d2.
            buildSpdxDocument env scanResult t1 options = Inr d1
          \<and> buildSpdxDocument (env\<lparr>env_randomUUID := uuid2\<rparr>) scanResult t2 options = Inr d2
          \<and> sd_packages d1 = sd_packages d2
          \<and> sd_relationships d1 = sd_relationships d2
          \<and> d2 = d1\<lparr>sd_documentNamespace := sd_documentNamespace d2,
                      sd_creationInfo := (sd_creationInfo d1)\<lparr>ci_created := t2\<rparr>\<rparr>"
    using assms by (simp add: buildSpdxDocument_def Let_def g toolVersion_def)
  from c s show ?thesis by blast
qed

text \<open>Two runs on the demo scan, with other UUIDs and times.\<close>

theorem rendering_deterministic_witness:
  "\<not> attachRequested (demoOptions None None)
   \<and> (\<exists>b1 b2.
            buildCycloneDxBom demoEnv (demoScan [demoVuln]) ''t1'' (demoOptions None None) = Inr b1
          \<and> buildCycloneDxBom (demoEnv\<lparr>env_randomUUID := ''u2''\<rparr>) (demoScan [demoVuln]) ''t2''
               (demoOptions None None) = Inr b2
          \<and> bom_components b1 = bom_components b2
          \<and> bom_dependencies b1 = bom_dependencies b2
          \<and> b2 = b1\<lparr>bom_serialNumber := bom_serialNumber b2,
                      bom_metadata := (bom_metadata b1)\<lparr>cm_timestamp := ''t2''\<rparr>\<rparr>)
   \<and> (\<exists>d1 d2.
            buildSpdxDocument demoEnv (demoScan [demoVuln]) ''t1'' (demoOptions None None) = Inr d1
          \<and> buildSpdxDocument (demoEnv\<lparr>env_randomUUID := ''u2''\<rparr>) (demoScan [demoVuln]) ''t2''
               (demoOptions None None) = Inr d2
          \<and> sd_packages d1 = sd_packages d2
          \<and> sd_relationships d1 = sd_relationships d2
          \<and> d2 = d1\<lparr>sd_documentNamespace := sd_documentNamespace d2,
                      sd_creationInfo := (sd_creationInfo d1)\<lparr>ci_created := ''t2''\<rparr>\<rparr>)"
proof -
  have h: "\<not> attachRequested (demoOptions None None)"
    by (simp add: attachRequested_def demoOptions_def)
  show ?thesis
    by (rule conjI [OF h rendering_deterministic [OF h]])
qed

subsection \<open>The result of a generation\<close>

text \<open>
  Claim C10 (the flag \<open>embeddedVulnerabilities\<close>). Every generation from a scan returns
  a result, whose flag is true exactly when attaching vulnerabilities was requested and
  the scan has at least one finding, whatever the format and whether or not a finding
  resolves to a package. So an SPDX result for findings none of which resolves has no
  annotation and the flag set; a CycloneDX result has the \<open>vulnerabilities\<close> key exactly
  when the flag is set, and with attachment requested and no finding it has no such key
  and the flag is not set.
\<close>

theorem embeddedVulnerabilities_flag:
  "\<exists>res. generateSbom env scanResult projectPath options = Inr res
     \<and> res_embeddedVulnerabilities res
         = (op_attachVulnerabilities options = Some True \<and> sr_vulnerabilities scanResult \<noteq> [])
     \<and> (op_format options = Some spdx \<and> op_attachVulnerabilities options = Some True
          \<and> sr_vulnerabilities scanResult \<noteq> []
          \<and> (\<forall>v \<in> set (sr_vulnerabilities scanResult).
                map_of (byKey (buildPackageMetadataMap (dt_packages (sr_dependencies scanResult))))
                  (createKey (vu_package v) (vu_version v)) = None)
         \<longrightarrow> (\<exists>d. res_document res = Spdx d \<and> sd_annotations d = [])
             \<and> res_embeddedVulnerabilities res)
     \<and> (\<forall>b. res_document res = CycloneDx b
           \<longrightarrow> (bom_vulnerabilities b \<noteq> None) = res_embeddedVulnerabilities res)
     \<and> (op_format options \<noteq> Some spdx \<and> op_attachVulnerabilities options = Some True
          \<and> sr_vulnerabilities scanResult = []
         \<longrightarrow> (\<exists>b. res_document res = CycloneDx b \<and> bom_vulnerabilities b = None)
             \<and> \<not> res_embeddedVulnerabilities res)"
proof -
  obtain g where g: "buildDependencyGraph (sr_dependencies scanResult) = Inr g"
    using buildDependencyGraph_ok by blast
  have none: "buildSpdxAnnotations vs pm t = []"
    if "\<forall>v \<in> set vs. map_of pm (createKey (vu_package v) (vu_version v)) = None" for vs pm t
    using that unfolding buildSpdxAnnotations_def map_filter_eq
    by (simp add: Let_def filter_empty_conv)
  show ?thesis
  proof (cases "op_format options = Some spdx")
    case True
    then show ?thesis
      by (auto simp: generateSbom_def buildSpdxDocument_def Let_def g attachRequested_def none)
  next
    case False
    then have "(case op_format options of None \<Rightarrow> cyclonedx | Some f \<Rightarrow> f) = cyclonedx"
      by (cases "op_format options"; cases "the (op_format options)") auto
    then show ?thesis using False
      by (auto simp: generateSbom_def buildCycloneDxBom_def Let_def g attachRequested_def)
  qed
qed

text \<open>Attachment requested for SPDX with one finding, for a package that is not in the
  project: no annotation, flag set.\<close>

theorem embeddedVulnerabilities_flag_witness:
  "\<exists>res. generateSbom demoEnv (demoScan [ghostVuln]) ''/tmp/project''
            (demoOptions (Some spdx) (Some True)) = Inr res
     \<and> (\<exists>d. res_document res = Spdx d \<and> sd_annotations d = [])
     \<and> res_embeddedVulnerabilities res"
proof -
  let ?sr = "demoScan [ghostVuln]" and ?op = "demoOptions (Some spdx) (Some True)"
  have h1: "op_format ?op = Some spdx" "op_attachVulnerabilities ?op = Some True"
    by (simp_all add: demoOptions_def)
  have h2: "sr_vulnerabilities ?sr \<noteq> []" by (simp add: demoScan_def)
  have h3: "\<forall>v \<in> set (sr_vulnerabilities ?sr).
                map_of (byKey (buildPackageMetadataMap (dt_packages (sr_dependencies ?sr))))
                  (createKey (vu_package v) (vu_version v)) = None"
    by code_simp
  from embeddedVulnerabilities_flag [of demoEnv ?sr "''/tmp/project''" ?op]
  obtain res where res: "generateSbom demoEnv ?sr ''/tmp/project'' ?op = Inr res"
    and imp: "op_format ?op = Some spdx \<and> op_attachVulnerabilities ?op = Some True
          \<and> sr_vulnerabilities ?sr \<noteq> []
          \<and> (\<forall>v \<in> set (sr_vulnerabilities ?sr).
                map_of (byKey (buildPackageMetadataMap (dt_packages (sr_dependencies ?sr))))
                  (createKey (vu_package v) (vu_version v)) = None)
         \<longrightarrow> (\<exists>d. res_document res = Spdx d \<and> sd_annotations d = [])
             \<and> res_embeddedVulnerabilities res"
    by blast
  from imp h1 h2 h3 have "(\<exists>d. res_document res = Spdx d \<and> sd_annotations d = [])
             \<and> res_embeddedVulnerabilities res" by blast
  with res show ?thesis by blast
qed

subsection \<open>SPDX element ids that collide\<close>

lemma update_new_key: "k \<notin> fst ` set al \<Longrightarrow> AList.update k v al = al @ [(k, v)]"
  by (induction al) auto

lemma buildPackageMetadataLoop_byKey:
  "distinct (map packageKey pkgs) \<Longrightarrow> set (map packageKey pkgs) \<inter> fst ` set (byKey m) = {}
     \<Longrightarrow> byKey (buildPackageMetadataLoop pkgs m)
         = byKey m @ map (\<lambda>p. (packageKey p, packageMetadata p)) pkgs"
proof (induction pkgs arbitrary: m)
  case Nil
  show ?case by simp
next
  case (Cons pkg pkgs)
  let ?m1 = "\<lparr>byKey = AList.update (packageKey pkg) (packageMetadata pkg) (byKey m),
              byBomRef = AList.update (pm_bomRef (packageMetadata pkg)) (packageMetadata pkg)
                           (byBomRef m)\<rparr>"
  have new: "packageKey pkg \<notin> fst ` set (byKey m)" using Cons.prems(2) by auto
  then have k1: "byKey ?m1 = byKey m @ [(packageKey pkg, packageMetadata pkg)]"
    by (simp add: update_new_key)
  have "set (map packageKey pkgs) \<inter> fst ` set (byKey ?m1) = {}"
    unfolding k1 using Cons.prems by auto
  with Cons.IH [of ?m1] Cons.prems(1)
  have "byKey (buildPackageMetadataLoop pkgs ?m1)
         = byKey ?m1 @ map (\<lambda>p. (packageKey p, packageMetadata p)) pkgs" by simp
  then show ?case unfolding k1
    by (simp add: Let_def packageKey_def packageMetadata_def)
qed

lemma buildPackageMetadataMap_byKey:
  "distinct (map packageKey pkgs)
     \<Longrightarrow> byKey (buildPackageMetadataMap pkgs) = map (\<lambda>p. (packageKey p, packageMetadata p)) pkgs"
  by (simp add: buildPackageMetadataMap_def buildPackageMetadataLoop_byKey)

text \<open>
  Claim C4, amended. The SPDX renderer has no check for colliding element ids and raises
  no error. For every scan whose package list has one entry per dedup key, it returns a
  document whose \<open>packages\<close> are the root package followed by one library package per
  entry of the package list, in order, each with the name, the version and the sanitized
  SPDX id of its entry; so two packages whose sanitized ids collide are two entries of
  \<open>packages\<close> with the same \<open>SPDXID\<close>.
\<close>

theorem spdx_collision_not_detected:
  assumes "distinct (map packageKey (dt_packages (sr_dependencies scanResult)))"
  shows "\<exists>doc. buildSpdxDocument env scanResult generatedAt options = Inr doc
     \<and> length (sd_packages doc) = 1 + length (dt_packages (sr_dependencies scanResult))
     \<and> map (\<lambda>p. (sp_name p, sp_versionInfo p, sp_SPDXID p)) (tl (sd_packages doc))
         = map (\<lambda>p. (pi_name p, pi_version p, createSpdxRef (pi_name p) (pi_version p)))
             (dt_packages (sr_dependencies scanResult))
     \<and> (\<forall>i j. i < j \<and> j < length (dt_packages (sr_dependencies scanResult))
           \<and> createSpdxRef (pi_name (dt_packages (sr_dependencies scanResult) ! i))
                 (pi_version (dt_packages (sr_dependencies scanResult) ! i))
             = createSpdxRef (pi_name (dt_packages (sr_dependencies scanResult) ! j))
                 (pi_version (dt_packages (sr_dependencies scanResult) ! j))
           \<longrightarrow> sp_SPDXID (sd_packages doc ! Suc i) = sp_SPDXID (sd_packages doc ! Suc j)
               \<and> sp_name (sd_packages doc ! Suc i)
                   = pi_name (dt_packages (sr_dependencies scanResult) ! i)
               \<and> sp_versionInfo (sd_packages doc ! Suc i)
                   = pi_version (dt_packages (sr_dependencies scanResult) ! i)
               \<and> sp_name (sd_packages doc ! Suc j)
                   = pi_name (dt_packages (sr_dependencies scanResult) ! j)
               \<and> sp_versionInfo (sd_packages doc ! Suc j)
                   = pi_version (dt_packages (sr_dependencies scanResult) ! j))"
proof -
  let ?tree = "sr_dependencies scanResult"
  let ?pkgs = "dt_packages ?tree"
  obtain g where g: "buildDependencyGraph ?tree = Inr g"
    using buildDependencyGraph_ok by blast
  define doc where "doc = (case buildSpdxDocument env scanResult generatedAt options of Inr d \<Rightarrow> d)"
  have r: "buildSpdxDocument env scanResult generatedAt options = Inr doc"
    by (simp add: doc_def buildSpdxDocument_def Let_def g)
  have p: "sd_packages doc = buildSpdxPackages ?tree (byKey (buildPackageMetadataMap ?pkgs)) options"
    by (simp add: doc_def buildSpdxDocument_def Let_def g)
  have k: "map snd (byKey (buildPackageMetadataMap ?pkgs)) = map packageMetadata ?pkgs"
    by (simp add: buildPackageMetadataMap_byKey [OF assms] comp_def)
  have len: "length (sd_packages doc) = 1 + length ?pkgs"
    unfolding p buildSpdxPackages_def Let_def k by simp
  have nth: "sp_name (sd_packages doc ! Suc i) = pi_name (?pkgs ! i)
       \<and> sp_versionInfo (sd_packages doc ! Suc i) = pi_version (?pkgs ! i)
       \<and> sp_SPDXID (sd_packages doc ! Suc i)
           = createSpdxRef (pi_name (?pkgs ! i)) (pi_version (?pkgs ! i))"
    if "i < length ?pkgs" for i
    unfolding p buildSpdxPackages_def Let_def k using that
    by (simp add: packageMetadata_def)
  have m: "map (\<lambda>p. (sp_name p, sp_versionInfo p, sp_SPDXID p)) (tl (sd_packages doc))
         = map (\<lambda>p. (pi_name p, pi_version p, createSpdxRef (pi_name p) (pi_version p))) ?pkgs"
    unfolding p buildSpdxPackages_def Let_def k
    by (simp add: packageMetadata_def comp_def)
  have c: "sp_SPDXID (sd_packages doc ! Suc i) = sp_SPDXID (sd_packages doc ! Suc j)
        \<and> sp_name (sd_packages doc ! Suc i) = pi_name (?pkgs ! i)
        \<and> sp_versionInfo (sd_packages doc ! Suc i) = pi_version (?pkgs ! i)
        \<and> sp_name (sd_packages doc ! Suc j) = pi_name (?pkgs ! j)
        \<and> sp_versionInfo (sd_packages doc ! Suc j) = pi_version (?pkgs ! j)"
    if "i < j" "j < length ?pkgs"
       "createSpdxRef (pi_name (?pkgs ! i)) (pi_version (?pkgs ! i))
          = createSpdxRef (pi_name (?pkgs ! j)) (pi_version (?pkgs ! j))" for i j
  proof -
    from that have "i < length ?pkgs" by simp
    from nth [OF this] nth [OF that(2)] that(3) show ?thesis by simp
  qed
  from r len m c show ?thesis by blast
qed

text \<open>
  Claim C4 as stated has the renderer fail on such an input. On \<open>collisionScan\<close> the two
  pairs differ, their SPDX ids are equal, and the renderer returns a document, with two
  library packages under the one id.
\<close>

theorem spdx_collision_counterexample:
  "(''string_decoder'', ''1.0.0'') \<noteq> (''string-decoder'', ''1.0.0'')
   \<and> createSpdxRef ''string_decoder'' ''1.0.0'' = createSpdxRef ''string-decoder'' ''1.0.0''
   \<and> (case buildSpdxDocument demoEnv collisionScan ''2024-02-01T00:00:00.000Z''
              (demoOptions (Some spdx) None) of
         Inl e \<Rightarrow> []
       | Inr doc \<Rightarrow> map (\<lambda>p. (sp_name p, sp_SPDXID p)) (sd_packages doc))
       = [(''demo-app'', ''SPDXRef-demo-app-1.0.0''),
          (''string_decoder'', ''SPDXRef-string-decoder-1.0.0''),
          (''string-decoder'', ''SPDXRef-string-decoder-1.0.0'')]"
  by code_simp

theorem spdx_collision_not_detected_witness:
  "distinct (map packageKey (dt_packages (sr_dependencies collisionScan)))
   \<and> (\<exists>doc. buildSpdxDocument demoEnv collisionScan ''now'' (demoOptions (Some spdx) None) = Inr doc
        \<and> length (sd_packages doc) = 3
        \<and> sp_SPDXID (sd_packages doc ! 1) = sp_SPDXID (sd_packages doc ! 2)
        \<and> sp_name (sd_packages doc ! 1) = ''string_decoder''
        \<and> sp_name (sd_packages doc ! 2) = ''string-decoder'')"
proof -
  let ?pkgs = "dt_packages (sr_dependencies collisionScan)"
  have h: "distinct (map packageKey ?pkgs)" by code_simp
  have l: "length ?pkgs = 2" by code_simp
  have e: "createSpdxRef (pi_name (?pkgs ! 0)) (pi_version (?pkgs ! 0))
             = createSpdxRef (pi_name (?pkgs ! 1)) (pi_version (?pkgs ! 1))" by code_simp
  have n: "pi_name (?pkgs ! 0) = ''string_decoder''" "pi_name (?pkgs ! 1) = ''string-decoder''"
    by code_simp+
  from spdx_collision_not_detected [OF h, of demoEnv "''now''" "demoOptions (Some spdx) None"]
  obtain doc where doc: "buildSpdxDocument demoEnv collisionScan ''now'' (demoOptions (Some spdx) None) = Inr doc"
    and len: "length (sd_packages doc) = 1 + length ?pkgs"
    and col: "\<forall>i j. i < j \<and> j < length ?pkgs
           \<and> createSpdxRef (pi_name (?pkgs ! i)) (pi_version (?pkgs ! i))
             = createSpdxRef (pi_name (?pkgs ! j)) (pi_version (?pkgs ! j))
           \<longrightarrow> sp_SPDXID (sd_packages doc ! Suc i) = sp_SPDXID (sd_packages doc ! Suc j)
               \<and> sp_name (sd_packages doc ! Suc i) = pi_name (?pkgs ! i)
               \<and> sp_versionInfo (sd_packages doc ! Suc i) = pi_version (?pkgs ! i)
               \<and> sp_name (sd_packages doc ! Suc j) = pi_name (?pkgs ! j)
               \<and> sp_versionInfo (sd_packages doc ! Suc j) = pi_version (?pkgs ! j)"
    by blast
  from col [rule_format, of 0 1] l e
  have "sp_SPDXID (sd_packages doc ! Suc 0) = sp_SPDXID (sd_packages doc ! Suc 1)
        \<and> sp_name (sd_packages doc ! Suc 0) = pi_name (?pkgs ! 0)
        \<and> sp_name (sd_packages doc ! Suc 1) = pi_name (?pkgs ! 1)" by simp
  then have "sp_SPDXID (sd_packages doc ! 1) = sp_SPDXID (sd_packages doc ! 2)
        \<and> sp_name (sd_packages doc ! 1) = ''string_decoder''
        \<and> sp_name (sd_packages doc ! 2) = ''string-decoder''"
    unfolding n by (simp add: numeral_2_eq_2)
  moreover from len l have "length (sd_packages doc) = 3" by simp
  ultimately show ?thesis using h doc by blast
qed

subsection \<open>Paths found by the query\<close>

lemma firstMatchPath_Cons_ids:
  "firstMatchPath g t (x # rest) q \<longleftrightarrow> firstMatchPath g t [x] q \<or> firstMatchPath g t rest q"
  by (cases q) auto

lemma firstMatchPath_Nil_ids [simp]: "\<not> firstMatchPath g t [] q"
  by (cases q) auto

lemma firstMatchPath_absent:
  "map_of (nodes g) x = None \<Longrightarrow> \<not> firstMatchPath g t [x] q"
  by (cases q) auto

lemma firstMatchPath_match:
  "map_of (nodes g) x = Some n \<Longrightarrow> gn_name n = t \<Longrightarrow> firstMatchPath g t [x] q \<longleftrightarrow> q = [x]"
  by (cases q) auto

lemma firstMatchPath_descend:
  "map_of (nodes g) x = Some n \<Longrightarrow> gn_name n \<noteq> t
     \<Longrightarrow> firstMatchPath g t [x] q \<longleftrightarrow> (\<exists>q'. q = x # q' \<and> firstMatchPath g t (gn_children n) q')"
  by (cases q) auto

lemma firstMatchPath_head: "firstMatchPath g t ids q \<Longrightarrow> q \<noteq> [] \<and> hd q \<in> set ids"
  by (cases q) auto

lemma pathBefore_skip:
  assumes "a \<noteq> []" "hd a \<noteq> x" "b \<noteq> []" "hd b \<noteq> x"
  shows "pathBefore g (x # rest) a b = pathBefore g rest a b"
  using assms by (cases a; cases b) auto

lemma pathBefore_first:
  assumes "b \<noteq> []" "hd b \<noteq> x"
  shows "pathBefore g (x # rest) (x # a) b"
  using assms by (cases b) auto

lemma pathBefore_same_head:
  "map_of (nodes g) x = Some n
     \<Longrightarrow> pathBefore g ids (x # a) (x # b) = pathBefore g (gn_children n) a b"
  by simp

lemma pathBefore_irrefl: "\<not> pathBefore g ids a a"
  by (induction a arbitrary: ids) (auto split: option.splits)

lemma sorted_wrt_irrefl_distinct:
  "sorted_wrt R xs \<Longrightarrow> (\<And>x. \<not> R x x) \<Longrightarrow> distinct xs"
  by (induction xs) auto

lemma pathsSpec_Nil [simp]: "pathsSpec g t [] []"
  by (simp add: pathsSpec_def)

lemma pathsSpec_Cons:
  assumes first: "set qx = {q. firstMatchPath g t [x] q}"
    and sorted_first: "childrenDistinct g \<Longrightarrow> sorted_wrt (pathBefore g (x # rest)) qx"
    and rest: "pathsSpec g t rest qr"
  shows "pathsSpec g t (x # rest) (qx @ qr)"
  unfolding pathsSpec_def
proof (intro conjI impI)
  from rest have sr: "set qr = {q. firstMatchPath g t rest q}" by (simp add: pathsSpec_def)
  show "set (qx @ qr) = {q. firstMatchPath g t (x # rest) q}"
    using first sr firstMatchPath_Cons_ids [of g t x rest] by auto
  assume d: "childrenDistinct g \<and> distinct (x # rest)"
  then have x: "x \<notin> set rest" by simp
  have hx: "a \<noteq> [] \<and> hd a = x" if "a \<in> set qx" for a
    using that first firstMatchPath_head [of g t "[x]" a] by auto
  have hr: "b \<noteq> [] \<and> hd b \<noteq> x" if "b \<in> set qr" for b
    using that sr firstMatchPath_head [of g t rest b] x by auto
  from rest d have "sorted_wrt (pathBefore g rest) qr" by (simp add: pathsSpec_def)
  then have 2: "sorted_wrt (pathBefore g (x # rest)) qr"
    by (rule sorted_wrt_mono_rel [rotated]) (simp add: pathBefore_skip hr)
  have 3: "pathBefore g (x # rest) a b" if "a \<in> set qx" "b \<in> set qr" for a b
  proof -
    from hx [OF that(1)] obtain a' where "a = x # a'" by (cases a) auto
    with hr [OF that(2)] show ?thesis by (simp add: pathBefore_first)
  qed
  from sorted_first d 2 3 show "sorted_wrt (pathBefore g (x # rest)) (qx @ qr)"
    by (simp add: sorted_wrt_append)
qed

lemma findPathsLoop_spec:
  assumes recurse: "\<forall>c n p sub. c \<in> set ids \<longrightarrow> map_of (nodes g) c = Some n
            \<longrightarrow> recurse c p = Some sub
            \<longrightarrow> (\<exists>qs. sub = map ((@) p) qs \<and> pathsSpec g t (gn_children n) qs)"
    and out: "findPathsLoop recurse g t p ids = Some out"
  shows "\<exists>qs. out = map ((@) p) qs \<and> pathsSpec g t ids qs"
  using recurse out
proof (induction ids arbitrary: out)
  case Nil
  then show ?case by simp
next
  case (Cons x rest)
  have rec': "\<forall>c n p sub. c \<in> set rest \<longrightarrow> map_of (nodes g) c = Some n
            \<longrightarrow> recurse c p = Some sub
            \<longrightarrow> (\<exists>qs. sub = map ((@) p) qs \<and> pathsSpec g t (gn_children n) qs)"
    using Cons.prems(1) by simp
  show ?case
  proof (cases "map_of (nodes g) x")
    case None
    with Cons.prems(2) have "findPathsLoop recurse g t p rest = Some out" by simp
    from Cons.IH [OF rec' this] obtain qr where
      qr: "out = map ((@) p) qr" "pathsSpec g t rest qr" by blast
    have "pathsSpec g t (x # rest) ([] @ qr)"
      by (rule pathsSpec_Cons) (simp_all add: firstMatchPath_absent None qr)
    with qr show ?thesis by auto
  next
    case (Some n)
    show ?thesis
    proof (cases "gn_name n = t")
      case True
      with Some Cons.prems(2) obtain outr where
        outr: "findPathsLoop recurse g t p rest = Some outr" "out = (p @ [x]) # outr"
        by (auto simp: Let_def)
      from Cons.IH [OF rec' outr(1)] obtain qr where
        qr: "outr = map ((@) p) qr" "pathsSpec g t rest qr" by blast
      have "pathsSpec g t (x # rest) ([[x]] @ qr)"
        by (rule pathsSpec_Cons) (auto simp: firstMatchPath_match [OF Some True] qr)
      moreover have "out = map ((@) p) ([[x]] @ qr)" using outr(2) qr(1) by simp
      ultimately show ?thesis by blast
    next
      case False
      with Some Cons.prems(2) obtain sub outr where
        sub: "recurse x (p @ [x]) = Some sub"
        and outr: "findPathsLoop recurse g t p rest = Some outr" "out = sub @ outr"
        by (auto simp: Let_def split: option.splits)
      from Cons.prems(1) Some sub obtain qs where
        qs: "sub = map ((@) (p @ [x])) qs" "pathsSpec g t (gn_children n) qs"
        by (meson list.set_intros(1))
      from Cons.IH [OF rec' outr(1)] obtain qr where
        qr: "outr = map ((@) p) qr" "pathsSpec g t rest qr" by blast
      have set_qs: "set qs = {q. firstMatchPath g t (gn_children n) q}"
        using qs(2) by (simp add: pathsSpec_def)
      have "pathsSpec g t (x # rest) (map ((#) x) qs @ qr)"
      proof (rule pathsSpec_Cons)
        show "set (map ((#) x) qs) = {q. firstMatchPath g t [x] q}"
          using set_qs by (auto simp: firstMatchPath_descend [OF Some False])
        show "sorted_wrt (pathBefore g (x # rest)) (map ((#) x) qs)" if "childrenDistinct g"
        proof -
          from that Some have "distinct (gn_children n)" by (auto simp: childrenDistinct_def)
          with qs(2) that have "sorted_wrt (pathBefore g (gn_children n)) qs"
            by (simp add: pathsSpec_def)
          then show ?thesis
            by (simp add: sorted_wrt_map Some)
        qed
        show "pathsSpec g t rest qr" by (rule qr(2))
      qed
      moreover have "out = map ((@) p) (map ((#) x) qs @ qr)"
        using outr(2) qs(1) qr(1) by simp
      ultimately show ?thesis by blast
    qed
  qed
qed

lemma findPathsRecursive_spec:
  "findPathsRecursive fuel g c t p = Some sub \<Longrightarrow> map_of (nodes g) c = Some n
     \<Longrightarrow> \<exists>qs. sub = map ((@) p) qs \<and> pathsSpec g t (gn_children n) qs"
proof (induction fuel arbitrary: c p sub n)
  case 0
  then show ?case by simp
next
  case (Suc fuel)
  from Suc.prems have
    "findPathsLoop (\<lambda>childId newPath. findPathsRecursive fuel g childId t newPath) g t p
       (gn_children n) = Some sub" by simp
  moreover have "\<forall>c n' p' sub'. c \<in> set (gn_children n) \<longrightarrow> map_of (nodes g) c = Some n'
            \<longrightarrow> findPathsRecursive fuel g c t p' = Some sub'
            \<longrightarrow> (\<exists>qs. sub' = map ((@) p') qs \<and> pathsSpec g t (gn_children n') qs)"
    using Suc.IH by blast
  ultimately show ?case by (rule findPathsLoop_spec [rotated])
qed

lemma findRootPaths_loop:
  "findRootPaths fuel g t ids
     = findPathsLoop (\<lambda>childId newPath. findPathsRecursive fuel g childId t newPath) g t [] ids"
  by (induction ids) (auto split: option.splits)

lemma findDependencyPath_spec:
  assumes "findDependencyPath fuel g t = Some ps"
  shows "pathsSpec g t (roots g) ps"
proof -
  from assms have "findPathsLoop (\<lambda>childId newPath. findPathsRecursive fuel g childId t newPath)
      g t [] (roots g) = Some ps"
    by (simp add: findDependencyPath_def findRootPaths_loop)
  moreover have "\<forall>c n p sub. c \<in> set (roots g) \<longrightarrow> map_of (nodes g) c = Some n
            \<longrightarrow> findPathsRecursive fuel g c t p = Some sub
            \<longrightarrow> (\<exists>qs. sub = map ((@) p) qs \<and> pathsSpec g t (gn_children n) qs)"
    using findPathsRecursive_spec by blast
  ultimately have "\<exists>qs. ps = map ((@) []) qs \<and> pathsSpec g t (roots g) qs"
    by (rule findPathsLoop_spec [rotated])
  then show ?thesis by (auto simp: map_idI)
qed

lemma firstMatchPath_pathTo: "firstMatchPath g t ids q \<Longrightarrow> pathTo g t ids q"
proof (induction q arbitrary: ids)
  case Nil
  then show ?case by simp
next
  case (Cons x xs)
  then show ?case by (cases xs) (auto split: option.splits if_splits)
qed

lemma pathTo_has_first_match:
  "pathTo g t ids q \<Longrightarrow> \<exists>q' r. q = q' @ r \<and> firstMatchPath g t ids q'"
proof (induction q arbitrary: ids)
  case Nil
  then show ?case by simp
next
  case (Cons x xs)
  then obtain n where n: "x \<in> set ids" "map_of (nodes g) x = Some n"
    by (auto split: option.splits)
  show ?case
  proof (cases "gn_name n = t")
    case True
    with n have "firstMatchPath g t ids [x]" by simp
    then show ?thesis by (metis append_Cons append_Nil)
  next
    case False
    with Cons.prems n have "pathTo g t (gn_children n) xs" by (auto split: if_splits)
    from Cons.IH [OF this] obtain q' r where
      "xs = q' @ r" "firstMatchPath g t (gn_children n) q'" by blast
    with n False have "x # xs = (x # q') @ r \<and> firstMatchPath g t ids (x # q')" by simp
    then show ?thesis by blast
  qed
qed

lemma firstMatchPath_name_present:
  "firstMatchPath g t ids q \<Longrightarrow> t \<in> gn_name ` snd ` set (nodes g)"
proof (induction q arbitrary: ids)
  case Nil
  then show ?case by simp
next
  case (Cons x xs)
  then obtain n where n: "map_of (nodes g) x = Some n" by (auto split: option.splits)
  then have m: "(x, n) \<in> set (nodes g)" by (rule map_of_SomeD)
  show ?case
  proof (cases "gn_name n = t")
    case True
    with m show ?thesis by force
  next
    case False
    with Cons n show ?thesis by auto
  qed
qed

subsection \<open>When the query returns\<close>

lemma findPathsLoop_returns:
  assumes "\<forall>c p. c \<in> set ids \<longrightarrow> map_of (nodes g) c \<noteq> None \<longrightarrow> recurse c p \<noteq> None"
  shows "\<exists>out. findPathsLoop recurse g t p ids = Some out"
  using assms
proof (induction ids)
  case Nil
  show ?case by simp
next
  case (Cons x rest)
  then obtain outr where outr: "findPathsLoop recurse g t p rest = Some outr" by auto
  show ?case
  proof (cases "map_of (nodes g) x")
    case None
    with outr show ?thesis by simp
  next
    case (Some n)
    with Cons.prems obtain sub where "recurse x (p @ [x]) = Some sub" by fastforce
    with Some outr show ?thesis by (simp add: Let_def)
  qed
qed

lemma findPathsRecursive_returns:
  "ranked g rank \<Longrightarrow> rank c < fuel \<Longrightarrow> \<exists>sub. findPathsRecursive fuel g c t p = Some sub"
proof (induction fuel arbitrary: c p)
  case 0
  then show ?case by simp
next
  case (Suc fuel)
  show ?case
  proof (cases "map_of (nodes g) c")
    case None
    then show ?thesis by simp
  next
    case (Some n)
    have "\<forall>c' p'. c' \<in> set (gn_children n) \<longrightarrow> map_of (nodes g) c' \<noteq> None
            \<longrightarrow> findPathsRecursive fuel g c' t p' \<noteq> None"
    proof (intro allI impI)
      fix c' p' assume "c' \<in> set (gn_children n)"
      with Suc.prems(1) Some have "rank c' < rank c" by (auto simp: ranked_def)
      with Suc.prems(2) have "rank c' < fuel" by simp
      from Suc.IH [OF Suc.prems(1) this] show "findPathsRecursive fuel g c' t p' \<noteq> None"
        by fastforce
    qed
    from findPathsLoop_returns [OF this] Some show ?thesis by simp
  qed
qed

lemma findDependencyPath_returns:
  assumes "ranked g rank" and "\<forall>r \<in> set (roots g). rank r < fuel"
  shows "\<exists>ps. findDependencyPath fuel g t = Some ps"
proof -
  have "\<forall>c p. c \<in> set (roots g) \<longrightarrow> map_of (nodes g) c \<noteq> None
          \<longrightarrow> findPathsRecursive fuel g c t p \<noteq> None"
    using findPathsRecursive_returns [OF assms(1)] assms(2) by fastforce
  from findPathsLoop_returns [OF this] show ?thesis
    by (simp add: findDependencyPath_def findRootPaths_loop)
qed

subsection \<open>Edges and roots of the built graph\<close>

lemma build_edges:
  "nodeId \<noteq> [] \<Longrightarrow>
     edges (buildNodeRecursive dep nodeId depth parent g isDev)
       = edges g @ (case parent of None \<Rightarrow> [] | Some p \<Rightarrow> if p = [] then [] else [(p, nodeId)])
         @ depEdges nodeId dep"
  "nodeId \<noteq> [] \<Longrightarrow>
     edges (buildChildren cs nodeId depth g isDev) = edges g @ childEdges nodeId cs"
proof (induction dep nodeId depth parent g isDev and cs nodeId depth g isDev
       rule: buildNodeRecursive_buildChildren.induct)
  case (1 name version resolved deps nodeId depth parent g isDev)
  then show ?case
    by (cases deps) (auto simp: visitNode_edges split: option.splits)
next
  case (2 nodeId depth g isDev)
  show ?case by simp
next
  case (3 childName childDep rest nodeId depth g isDev)
  then show ?case by (simp add: createKey_nonempty entryKey_def)
qed

lemma buildRoots_edges:
  "edges (buildRoots ds g) = edges g @ concat (map (\<lambda>e. depEdges (entryKey e) (snd e)) ds)"
proof (induction ds arbitrary: g)
  case Nil
  show ?case by simp
next
  case (Cons e ds)
  obtain name dep where e: "e = (name, dep)" by (cases e)
  show ?case
    by (simp add: e Let_def Cons.IH build_edges createKey_nonempty entryKey_def)
qed

lemma buildRoots_roots: "roots (buildRoots ds g) = roots g @ map entryKey ds"
proof (induction ds arbitrary: g)
  case Nil
  show ?case by simp
next
  case (Cons e ds)
  obtain name dep where e: "e = (name, dep)" by (cases e)
  show ?case by (simp add: e Let_def Cons.IH build_roots entryKey_def)
qed

lemma buildGraph_edges: "edges (buildGraph t) = treeEdges t"
  by (simp add: buildGraph_def buildRoots_edges treeEdges_def)

lemma buildGraph_roots: "roots (buildGraph t) = map entryKey (dt_dependencies t)"
  by (simp add: buildGraph_def buildRoots_roots)

lemma buildGraph_nodeInv: "nodeInv (buildGraph t)"
  using buildRoots_inv [OF emptyGraph_inv] by (simp add: buildGraph_def)

lemma buildGraph_ranked:
  assumes "\<forall>(p, c) \<in> set (treeEdges t). rank c < rank p"
  shows "ranked (buildGraph t) rank"
  unfolding ranked_def
proof (intro allI impI, elim conjE)
  fix k n c assume "map_of (nodes (buildGraph t)) k = Some n" "c \<in> set (gn_children n)"
  with buildGraph_nodeInv [of t] have "(k, c) \<in> set (edges (buildGraph t))"
    unfolding nodeInv_def by blast
  with assms show "rank c < rank k" by (auto simp: buildGraph_edges)
qed

lemma buildGraph_childrenDistinct: "childrenDistinct (buildGraph t)"
  using buildGraph_nodeInv [of t] unfolding nodeInv_def childrenDistinct_def by blast

lemma entryKey_distinct:
  assumes "distinct (map fst ds)"
    and "\<forall>(key, dep) \<in> set ds. CHR ''@'' \<notin> set (dn_version dep)"
  shows "distinct (map entryKey ds)"
proof -
  from assms(1) have d: "distinct ds" and i: "inj_on fst (set ds)"
    by (simp_all add: distinct_map)
  have "inj_on entryKey (set ds)"
  proof (rule inj_onI)
    fix x y assume x: "x \<in> set ds" and y: "y \<in> set ds" and eq: "entryKey x = entryKey y"
    from assms(2) x y have "CHR ''@'' \<notin> set (dn_version (snd x))"
      "CHR ''@'' \<notin> set (dn_version (snd y))" by auto
    with eq have "fst x = fst y"
      unfolding entryKey_def by (auto dest: createKey_inject)
    with i x y show "x = y" by (auto dest: inj_onD)
  qed
  with d show ?thesis by (simp add: distinct_map)
qed

subsection \<open>Paths to a package\<close>

text \<open>
  The result of the query is one block of paths per entry of the roots, in the order of
  the roots.
\<close>

lemma findPathsLoop_Cons:
  assumes "findPathsLoop recurse g t p (x # rest) = Some out"
  shows "\<exists>ox orest. findPathsLoop recurse g t p [x] = Some ox
           \<and> findPathsLoop recurse g t p rest = Some orest \<and> out = ox @ orest"
proof (cases "map_of (nodes g) x")
  case None
  with assms show ?thesis by simp
next
  case (Some n)
  show ?thesis
  proof (cases "gn_name n = t")
    case True
    with Some assms show ?thesis by (auto simp: Let_def)
  next
    case False
    with Some assms show ?thesis by (auto simp: Let_def split: option.splits)
  qed
qed

lemma findPathsLoop_blocks:
  assumes "findPathsLoop recurse g t p ids = Some out"
  shows "\<exists>blocks. out = concat blocks
           \<and> list_all2 (\<lambda>x b. findPathsLoop recurse g t p [x] = Some b) ids blocks"
  using assms
proof (induction ids arbitrary: out)
  case Nil
  then show ?case by simp
next
  case (Cons x rest)
  from findPathsLoop_Cons [OF Cons.prems] obtain ox orest where
    ox: "findPathsLoop recurse g t p [x] = Some ox"
    and orest: "findPathsLoop recurse g t p rest = Some orest" and out: "out = ox @ orest"
    by blast
  from Cons.IH [OF orest] obtain blocks where
    "orest = concat blocks"
    "list_all2 (\<lambda>x b. findPathsLoop recurse g t p [x] = Some b) rest blocks" by blast
  with ox out have "out = concat (ox # blocks)
      \<and> list_all2 (\<lambda>x b. findPathsLoop recurse g t p [x] = Some b) (x # rest) (ox # blocks)"
    by simp
  then show ?case by blast
qed

lemma findDependencyPath_blocks:
  assumes "findDependencyPath fuel g t = Some ps" and "childrenDistinct g"
  shows "\<exists>blocks. ps = concat blocks
           \<and> list_all2 (\<lambda>r b. set b = {q. firstMatchPath g t [r] q}
                               \<and> sorted_wrt (pathBefore g [r]) b \<and> distinct b)
                (roots g) blocks"
proof -
  let ?rec = "\<lambda>childId newPath. findPathsRecursive fuel g childId t newPath"
  from assms(1) have "findPathsLoop ?rec g t [] (roots g) = Some ps"
    by (simp add: findDependencyPath_def findRootPaths_loop)
  from findPathsLoop_blocks [OF this] obtain blocks where
    ps: "ps = concat blocks"
    and bl: "list_all2 (\<lambda>x b. findPathsLoop ?rec g t [] [x] = Some b) (roots g) blocks"
    by blast
  have rec: "\<forall>c n p sub. c \<in> set ids \<longrightarrow> map_of (nodes g) c = Some n
            \<longrightarrow> ?rec c p = Some sub
            \<longrightarrow> (\<exists>qs. sub = map ((@) p) qs \<and> pathsSpec g t (gn_children n) qs)" for ids
    using findPathsRecursive_spec by blast
  have one: "set b = {q. firstMatchPath g t [r] q} \<and> sorted_wrt (pathBefore g [r]) b \<and> distinct b"
    if "findPathsLoop ?rec g t [] [r] = Some b" for r b
  proof -
    from findPathsLoop_spec [OF rec that] have "pathsSpec g t [r] b" by (auto simp: map_idI)
    with assms(2) have s: "set b = {q. firstMatchPath g t [r] q}"
      and o: "sorted_wrt (pathBefore g [r]) b" by (simp_all add: pathsSpec_def)
    from o have "distinct b" by (rule sorted_wrt_irrefl_distinct) (rule pathBefore_irrefl)
    with s o show ?thesis by simp
  qed
  from bl have "list_all2 (\<lambda>r b. set b = {q. firstMatchPath g t [r] q}
                               \<and> sorted_wrt (pathBefore g [r]) b \<and> distinct b)
                (roots g) blocks"
    by (rule list_all2_mono) (rule one)
  with ps show ?thesis by blast
qed

text \<open>
  Claim C2, amended. Let the tree be acyclic as a relation on dedup keys: some rank
  decreases along every edge that the builder records for it. Then, on the built graph
  and for every package name, \<open>findDependencyPath\<close> returns (with a depth bound above the
  ranks of the roots). The traversal does not descend below a node that has the target
  name: the paths returned are exactly the id sequences that start at a root, follow
  children links through nodes of the table, end at a node with the target name and pass
  through no earlier node with that name. Each of them is a path from a root to a node
  with the target name, and every such path starts with one of them. The paths come in
  traversal order: the result is, entry by entry of the roots in declaration order, the
  paths of that kind from that root, each once and in the order of the children lists.
  So a path is returned once for each occurrence of its root id among the roots, and if
  the root ids are pairwise distinct every path is returned once, the whole result being
  in traversal order; the root ids are pairwise distinct when the keys of the top-level
  map are and no top-level version contains \<open>@\<close>. A name that no node has yields the
  empty list.
\<close>

theorem findDependencyPath_first_match:
  assumes "\<forall>(p, c) \<in> set (treeEdges t). rank c < rank p"
    and "\<forall>r \<in> set (roots (buildGraph t)). rank r < fuel"
  shows "\<exists>ps. findDependencyPath fuel (buildGraph t) name = Some ps
     \<and> set ps = {q. firstMatchPath (buildGraph t) name (roots (buildGraph t)) q}
     \<and> (\<forall>q \<in> set ps. pathTo (buildGraph t) name (roots (buildGraph t)) q)
     \<and> (\<forall>q. pathTo (buildGraph t) name (roots (buildGraph t)) q
            \<longrightarrow> (\<exists>q' \<in> set ps. \<exists>r. q = q' @ r))
     \<and> (\<exists>blocks. ps = concat blocks
            \<and> list_all2 (\<lambda>r b. set b = {q. firstMatchPath (buildGraph t) name [r] q}
                                \<and> sorted_wrt (pathBefore (buildGraph t) [r]) b \<and> distinct b)
                 (roots (buildGraph t)) blocks)
     \<and> (distinct (roots (buildGraph t))
            \<longrightarrow> sorted_wrt (pathBefore (buildGraph t) (roots (buildGraph t))) ps \<and> distinct ps)
     \<and> (distinct (map fst (dt_dependencies t))
          \<and> (\<forall>(key, dep) \<in> set (dt_dependencies t). CHR ''@'' \<notin> set (dn_version dep))
            \<longrightarrow> distinct (roots (buildGraph t)))
     \<and> (name \<notin> gn_name ` snd ` set (nodes (buildGraph t)) \<longrightarrow> ps = [])"
proof -
  let ?g = "buildGraph t"
  from findDependencyPath_returns [OF buildGraph_ranked [OF assms(1)] assms(2)]
  obtain ps where ps: "findDependencyPath fuel ?g name = Some ps" by blast
  from findDependencyPath_spec [OF ps]
  have set_ps: "set ps = {q. firstMatchPath ?g name (roots ?g) q}"
    and sorted: "distinct (roots ?g) \<longrightarrow> sorted_wrt (pathBefore ?g (roots ?g)) ps"
    by (simp_all add: pathsSpec_def buildGraph_childrenDistinct)
  have a: "\<forall>q \<in> set ps. pathTo ?g name (roots ?g) q"
    using set_ps by (auto intro: firstMatchPath_pathTo)
  have b: "\<forall>q. pathTo ?g name (roots ?g) q \<longrightarrow> (\<exists>q' \<in> set ps. \<exists>r. q = q' @ r)"
    using set_ps pathTo_has_first_match [of ?g name "roots ?g"] by blast
  have f: "\<exists>blocks. ps = concat blocks
            \<and> list_all2 (\<lambda>r b. set b = {q. firstMatchPath ?g name [r] q}
                                \<and> sorted_wrt (pathBefore ?g [r]) b \<and> distinct b)
                 (roots ?g) blocks"
    by (rule findDependencyPath_blocks [OF ps buildGraph_childrenDistinct])
  have c: "distinct (roots ?g) \<longrightarrow> sorted_wrt (pathBefore ?g (roots ?g)) ps \<and> distinct ps"
    using sorted by (auto intro: sorted_wrt_irrefl_distinct simp: pathBefore_irrefl)
  have e: "distinct (map fst (dt_dependencies t))
          \<and> (\<forall>(key, dep) \<in> set (dt_dependencies t). CHR ''@'' \<notin> set (dn_version dep))
            \<longrightarrow> distinct (roots ?g)"
    by (simp add: buildGraph_roots entryKey_distinct)
  have d: "name \<notin> gn_name ` snd ` set (nodes ?g) \<longrightarrow> ps = []"
  proof
    assume "name \<notin> gn_name ` snd ` set (nodes ?g)"
    then have "{q. firstMatchPath ?g name (roots ?g) q} = {}"
      using firstMatchPath_name_present [of ?g name] by blast
    with set_ps show "ps = []" by simp
  qed
  from ps set_ps a b f c e d show ?thesis by blast
qed

text \<open>
  Claim C2 as stated has a node with the target name below another node with the target
  name yield its own path. In the graph of \<open>nestedTree\<close> the sequence \<open>x@1\<close>, \<open>a@1\<close>, \<open>b@1\<close>,
  \<open>a@2\<close> is a path from the root to a node named \<open>a\<close>, and the query for \<open>a\<close> returns the
  path to \<open>a@1\<close> only. It also has the paths returned be distinct: the two top-level
  entries of \<open>dupRootTree\<close> have different map keys and the one id \<open>a@1@2\<close>, which is
  pushed on the roots twice, and the query for \<open>a\<close> returns the same path twice.
\<close>

theorem findDependencyPath_exhaustive_counterexample:
  "pathTo (buildGraph nestedTree) ''a'' (roots (buildGraph nestedTree))
     [''x@1'', ''a@1'', ''b@1'', ''a@2'']
   \<and> findDependencyPath 4 (buildGraph nestedTree) ''a'' = Some [[''x@1'', ''a@1'']]
   \<and> distinct (map fst (dt_dependencies dupRootTree))
   \<and> findDependencyPath 4 (buildGraph dupRootTree) ''a'' = Some [[''a@1@2''], [''a@1@2'']]"
  by code_simp

text \<open>The diamond: two paths to \<open>package-b\<close>, in the order of the roots.\<close>

theorem findDependencyPath_first_match_witness:
  "list_all (\<lambda>(p, c). diamondRank c < diamondRank p) (treeEdges diamondTree)
   \<and> list_all (\<lambda>r. diamondRank r < 2) (roots (buildGraph diamondTree))
   \<and> distinct (roots (buildGraph diamondTree))
   \<and> (\<exists>ps. findDependencyPath 2 (buildGraph diamondTree) ''package-b'' = Some ps
         \<and> set ps = {q. firstMatchPath (buildGraph diamondTree) ''package-b''
                          (roots (buildGraph diamondTree)) q}
         \<and> sorted_wrt (pathBefore (buildGraph diamondTree) (roots (buildGraph diamondTree))) ps
         \<and> distinct ps)
   \<and> findDependencyPath 2 (buildGraph diamondTree) ''package-b''
       = Some [[''package-a@1.0.0'', ''package-b@2.0.0''],
               [''package-c@1.0.0'', ''package-b@2.0.0'']]"
proof -
  have h1: "list_all (\<lambda>(p, c). diamondRank c < diamondRank p) (treeEdges diamondTree)"
    by code_simp
  have h2: "list_all (\<lambda>r. diamondRank r < 2) (roots (buildGraph diamondTree))"
    by code_simp
  have h3: "distinct (roots (buildGraph diamondTree))" by code_simp
  have v: "findDependencyPath 2 (buildGraph diamondTree) ''package-b''
       = Some [[''package-a@1.0.0'', ''package-b@2.0.0''],
               [''package-c@1.0.0'', ''package-b@2.0.0'']]" by code_simp
  from h1 have a1: "\<forall>(p, c) \<in> set (treeEdges diamondTree). diamondRank c < diamondRank p"
    by (simp add: list_all_iff)
  from h2 have a2: "\<forall>r \<in> set (roots (buildGraph diamondTree)). diamondRank r < 2"
    by (simp add: list_all_iff)
  from findDependencyPath_first_match [OF a1 a2, of "''package-b''"] h3
  have "\<exists>ps. findDependencyPath 2 (buildGraph diamondTree) ''package-b'' = Some ps
         \<and> set ps = {q. firstMatchPath (buildGraph diamondTree) ''package-b''
                          (roots (buildGraph diamondTree)) q}
         \<and> sorted_wrt (pathBefore (buildGraph diamondTree) (roots (buildGraph diamondTree))) ps
         \<and> distinct ps"
    by blast
  with h1 h2 h3 v show ?thesis by blast
qed

subsection \<open>The depth bound of the query\<close>

text \<open>A larger depth bound does not change a result.\<close>

lemma findPathsLoop_mono:
  assumes "\<forall>c p sub. recurse c p = Some sub \<longrightarrow> recurse' c p = Some sub"
    and "findPathsLoop recurse g t p ids = Some out"
  shows "findPathsLoop recurse' g t p ids = Some out"
  using assms(2)
proof (induction ids arbitrary: out)
  case Nil
  then show ?case by simp
next
  case (Cons x rest)
  show ?case
  proof (cases "map_of (nodes g) x")
    case None
    with Cons show ?thesis by simp
  next
    case (Some n)
    show ?thesis
    proof (cases "gn_name n = t")
      case True
      with Some Cons show ?thesis by (auto simp: Let_def)
    next
      case False
      with Some Cons.prems obtain sub outr where
        sub: "recurse x (p @ [x]) = Some sub"
        and outr: "findPathsLoop recurse g t p rest = Some outr" "out = sub @ outr"
        by (auto simp: Let_def split: option.splits)
      from sub assms(1) have "recurse' x (p @ [x]) = Some sub" by blast
      with Cons.IH [OF outr(1)] outr(2) Some False show ?thesis by (simp add: Let_def)
    qed
  qed
qed

lemma findPathsRecursive_mono:
  "findPathsRecursive fuel g c t p = Some sub \<Longrightarrow> fuel \<le> fuel'
     \<Longrightarrow> findPathsRecursive fuel' g c t p = Some sub"
proof (induction fuel arbitrary: fuel' c p sub)
  case 0
  then show ?case by simp
next
  case (Suc fuel)
  from Suc.prems(2) obtain k where k: "fuel' = Suc k" "fuel \<le> k" by (cases fuel') auto
  show ?case
  proof (cases "map_of (nodes g) c")
    case None
    with Suc.prems(1) k show ?thesis by simp
  next
    case (Some n)
    with Suc.prems(1) have
      "findPathsLoop (\<lambda>c p. findPathsRecursive fuel g c t p) g t p (gn_children n) = Some sub"
      by simp
    moreover have "\<forall>c p sub. findPathsRecursive fuel g c t p = Some sub
        \<longrightarrow> findPathsRecursive k g c t p = Some sub"
      using Suc.IH k(2) by blast
    ultimately have
      "findPathsLoop (\<lambda>c p. findPathsRecursive k g c t p) g t p (gn_children n) = Some sub"
      by (rule findPathsLoop_mono [rotated])
    with Some k show ?thesis by simp
  qed
qed

lemma findDependencyPath_mono:
  assumes "findDependencyPath fuel g t = Some ps" and "fuel \<le> fuel'"
  shows "findDependencyPath fuel' g t = Some ps"
proof -
  have "\<forall>c p sub. findPathsRecursive fuel g c t p = Some sub
        \<longrightarrow> findPathsRecursive fuel' g c t p = Some sub"
    using findPathsRecursive_mono assms(2) by blast
  with assms(1) show ?thesis
    unfolding findDependencyPath_def findRootPaths_loop
    by (rule findPathsLoop_mono [rotated])
qed

text \<open>
  Without acyclicity the query need not return. The two packages of \<open>cycleTree\<close> are
  each other's child in the built graph, and the query for a name that no node has does
  not return at any depth bound.
\<close>

lemma cycleGraph_nodes:
  "map_of (nodes (buildGraph cycleTree)) ''a@1''
     = Some \<lparr>gn_id = ''a@1'', gn_name = ''a'', gn_version = ''1'', gn_depth = 0, gn_parent = None,
             gn_children = [''b@1''], gn_vulnerabilities = 0, gn_isDevDependency = False\<rparr>"
  "map_of (nodes (buildGraph cycleTree)) ''b@1''
     = Some \<lparr>gn_id = ''b@1'', gn_name = ''b'', gn_version = ''1'', gn_depth = 1,
             gn_parent = Some ''a@1'', gn_children = [''a@1''], gn_vulnerabilities = 0,
             gn_isDevDependency = False\<rparr>"
  "roots (buildGraph cycleTree) = [''a@1'', ''b@1'']"
  by code_simp+

lemma findPathsRecursive_cycle:
  "findPathsRecursive fuel (buildGraph cycleTree) ''a@1'' ''left-pad'' p = None
   \<and> findPathsRecursive fuel (buildGraph cycleTree) ''b@1'' ''left-pad'' p = None"
proof (induction fuel arbitrary: p)
  case 0
  show ?case by simp
next
  case (Suc fuel)
  show ?case by (simp add: cycleGraph_nodes Suc.IH)
qed

lemma findDependencyPath_cycle: "findDependencyPath fuel (buildGraph cycleTree) ''left-pad'' = None"
  by (simp add: findDependencyPath_def cycleGraph_nodes findPathsRecursive_cycle)

subsection \<open>Stack and time of the builder\<close>

lemma buildM_result:
  "buildNodeRecursiveM stack dep nodeId depth parent (g, m) isDev
     = (if depDepth dep \<le> stack
        then Inr (buildNodeRecursive dep nodeId depth parent g isDev,
                  \<lparr>m_calls = m_calls m + Suc (length (depEntries dep)),
                   m_comparisons = m_comparisons m
                     + depComparisons dep nodeId depth parent g isDev\<rparr>)
        else Inl RangeError)"
  "buildChildrenM frames cs nodeId depth (g, m) isDev
     = (if entriesDepth cs \<le> frames
        then Inr (buildChildren cs nodeId depth g isDev,
                  \<lparr>m_calls = m_calls m + length (allEntries cs),
                   m_comparisons = m_comparisons m
                     + childrenComparisons cs nodeId depth g isDev\<rparr>)
        else Inl RangeError)"
proof (induction dep nodeId depth parent g isDev and cs nodeId depth g isDev
       arbitrary: stack m and frames m rule: buildNodeRecursive_buildChildren.induct)
  case (1 name version resolved deps nodeId depth parent g isDev)
  show ?case
  proof (cases stack)
    case 0
    then show ?thesis by simp
  next
    case (Suc frames)
    show ?thesis
    proof (cases deps)
      case None
      then show ?thesis using Suc by (simp add: Let_def)
    next
      case (Some cs)
      then show ?thesis using Suc "1.IH" [OF refl Some]
        by (simp add: Let_def add.assoc)
    qed
  qed
next
  case (2 nodeId depth g isDev)
  show ?case by simp
next
  case (3 childName childDep rest nodeId depth g isDev)
  let ?cid = "createKey childName (dn_version childDep)"
  let ?g1 = "buildNodeRecursive childDep ?cid (depth + 1) (Some nodeId) g isDev"
  let ?m1 = "\<lparr>m_calls = m_calls m + Suc (length (depEntries childDep)),
              m_comparisons = m_comparisons m
                + depComparisons childDep ?cid (depth + 1) (Some nodeId) g isDev\<rparr>"
  have child: "buildNodeRecursiveM frames childDep ?cid (depth + 1) (Some nodeId) (g, m) isDev
      = (if depDepth childDep \<le> frames then Inr (?g1, ?m1) else Inl RangeError)"
    by (rule "3.IH"(1))
  have rest: "buildChildrenM frames rest nodeId depth (?g1, m') isDev
      = (if entriesDepth rest \<le> frames
         then Inr (buildChildren rest nodeId depth ?g1 isDev,
                   \<lparr>m_calls = m_calls m' + length (allEntries rest),
                    m_comparisons = m_comparisons m'
                      + childrenComparisons rest nodeId depth ?g1 isDev\<rparr>)
         else Inl RangeError)" for m'
    by (rule "3.IH"(2))
  show ?case
  proof (cases "depDepth childDep \<le> frames")
    case True
    then show ?thesis
      unfolding buildChildrenM.simps buildChildren.simps allEntries.simps
        childrenComparisons.simps entriesDepth.simps child
      by (simp add: rest add.assoc del: One_nat_def)
  next
    case False
    then show ?thesis
      unfolding buildChildrenM.simps buildChildren.simps allEntries.simps
        childrenComparisons.simps entriesDepth.simps child
      by simp
  qed
qed

lemma buildRootsM_result:
  "buildRootsM stack ds (g, m)
     = (if entriesDepth ds \<le> stack
        then Inr (buildRoots ds g,
                  \<lparr>m_calls = m_calls m + length (allEntries ds),
                   m_comparisons = m_comparisons m + rootsComparisons ds g\<rparr>)
        else Inl RangeError)"
proof (induction ds arbitrary: g m)
  case Nil
  show ?case by simp
next
  case (Cons e ds)
  obtain name dep where e: "e = (name, dep)" by (cases e)
  show ?case
    by (cases "depDepth dep \<le> stack")
       (simp_all add: e Let_def buildM_result Cons.IH add.assoc)
qed

lemma buildGraphM_result:
  "buildGraphM stack t
     = (if treeDepth t \<le> stack
        then Inr (buildGraph t, \<lparr>m_calls = treeSize t, m_comparisons = treeComparisons t\<rparr>)
        else Inl RangeError)"
  by (simp add: buildGraphM_def buildRootsM_result treeDepth_def buildGraph_def treeSize_def
        treeComparisons_def)

lemma buildTime_eq: "buildTime t = treeSize t + treeComparisons t"
  by (simp add: buildTime_def buildGraphM_result)

lemma depth_le_size:
  "depDepth dep \<le> Suc (length (depEntries dep))"
  "entriesDepth cs \<le> length (allEntries cs)"
  by (induction dep and cs rule: depEntries_allEntries.induct) (auto split: option.splits)


lemma includesSteps_le: "includesSteps x ys \<le> length ys"
  by (induction ys) auto

lemma includesSteps_absent: "x \<notin> set ys \<Longrightarrow> includesSteps x ys = length ys"
  by (induction ys) auto

lemma addNode_edges: "edges (addNode dep nodeId depth parent g isDev) = edges g"
  by (simp add: addNode_def)

lemma addNode_lenInv: "lenInv g \<Longrightarrow> lenInv (addNode dep nodeId depth parent g isDev)"
  unfolding lenInv_def addNode_def by (auto simp: update_conv')

lemma addEdge_lenInv: "lenInv g \<Longrightarrow> lenInv (addEdge parent nodeId g)"
  unfolding lenInv_def addEdge_def
  by (auto simp: update_conv' le_SucI split: option.splits)

lemma visitNode_lenInv: "lenInv g \<Longrightarrow> lenInv (visitNode dep nodeId depth parent g isDev)"
  unfolding visitNode_def by (rule addEdge_lenInv [OF addNode_lenInv])

lemma build_lenInv:
  "lenInv g \<Longrightarrow> lenInv (buildNodeRecursive dep nodeId depth parent g isDev)"
  "lenInv g \<Longrightarrow> lenInv (buildChildren cs nodeId depth g isDev)"
  by (rule build_invariant [where I = lenInv]; simp add: visitNode_lenInv)+

lemma build_edges_grow:
  "length (edges g) \<le> length (edges (buildNodeRecursive dep nodeId depth parent g isDev))"
  "length (edges g) \<le> length (edges (buildChildren cs nodeId depth g isDev))"
  by (rule build_invariant [where I = "\<lambda>h. length (edges g) \<le> length (edges h)"];
      simp add: visitNode_edges split: option.splits)+

lemma buildRoots_edges_grow: "length (edges g) \<le> length (edges (buildRoots ds g))"
  by (simp add: buildRoots_edges)

lemma visitComparisons_le:
  assumes "lenInv g"
  shows "visitComparisons dep nodeId depth parent g isDev \<le> length (edges g)"
proof -
  have "lenInv (addNode dep nodeId depth parent g isDev)"
    using assms by (rule addNode_lenInv)
  then have "map_of (nodes (addNode dep nodeId depth parent g isDev)) p = Some pn
      \<Longrightarrow> includesSteps nodeId (gn_children pn) \<le> length (edges g)" for p pn
    unfolding lenInv_def addNode_edges
    using includesSteps_le [of nodeId "gn_children pn"] by (meson le_trans)
  then show ?thesis
    by (auto simp: visitComparisons_def split: option.splits)
qed

lemma comparisons_bound:
  "lenInv g \<Longrightarrow>
     depComparisons dep nodeId depth parent g isDev
       \<le> Suc (length (depEntries dep))
           * length (edges (buildNodeRecursive dep nodeId depth parent g isDev))"
  "lenInv g \<Longrightarrow>
     childrenComparisons cs nodeId depth g isDev
       \<le> length (allEntries cs) * length (edges (buildChildren cs nodeId depth g isDev))"
proof (induction dep nodeId depth parent g isDev and cs nodeId depth g isDev
       rule: buildNodeRecursive_buildChildren.induct)
  case (1 name version resolved deps nodeId depth parent g isDev)
  let ?d = "DependencyNode name version resolved deps"
  let ?g1 = "visitNode ?d nodeId depth parent g isDev"
  have v: "visitComparisons ?d nodeId depth parent g isDev \<le> length (edges g)"
    using "1.prems" by (rule visitComparisons_le)
  have g1: "length (edges g) \<le> length (edges ?g1)"
    by (simp add: visitNode_edges split: option.splits)
  show ?case
  proof (cases deps)
    case None
    then show ?thesis using v g1 by simp
  next
    case (Some cs)
    let ?g2 = "buildChildren cs nodeId depth ?g1 isDev"
    have "childrenComparisons cs nodeId depth ?g1 isDev \<le> length (allEntries cs) * length (edges ?g2)"
      by (rule "1.IH" [OF refl Some visitNode_lenInv [OF "1.prems"]])
    moreover have "length (edges g) \<le> length (edges ?g2)"
      using g1 build_edges_grow(2) [of ?g1 cs nodeId depth isDev] by simp
    ultimately show ?thesis using v Some by simp
  qed
next
  case (2 nodeId depth g isDev)
  show ?case by simp
next
  case (3 childName childDep rest nodeId depth g isDev)
  let ?cid = "createKey childName (dn_version childDep)"
  let ?g1 = "buildNodeRecursive childDep ?cid (depth + 1) (Some nodeId) g isDev"
  let ?g2 = "buildChildren rest nodeId depth ?g1 isDev"
  have a: "depComparisons childDep ?cid (depth + 1) (Some nodeId) g isDev
      \<le> Suc (length (depEntries childDep)) * length (edges ?g1)"
    by (rule "3.IH"(1) [OF "3.prems"])
  have b: "childrenComparisons rest nodeId depth ?g1 isDev
      \<le> length (allEntries rest) * length (edges ?g2)"
    by (rule "3.IH"(2) [OF build_lenInv(1) [OF "3.prems"]])
  have "length (edges ?g1) \<le> length (edges ?g2)" by (rule build_edges_grow(2))
  then have "Suc (length (depEntries childDep)) * length (edges ?g1)
      \<le> Suc (length (depEntries childDep)) * length (edges ?g2)"
    by (rule mult_le_mono2)
  with a b have "depComparisons childDep ?cid (depth + 1) (Some nodeId) g isDev
        + childrenComparisons rest nodeId depth ?g1 isDev
      \<le> Suc (length (depEntries childDep)) * length (edges ?g2)
        + length (allEntries rest) * length (edges ?g2)" by linarith
  then show ?case
    unfolding childrenComparisons.simps buildChildren.simps allEntries.simps
    by (simp add: algebra_simps del: One_nat_def)
qed

lemma rootsComparisons_bound:
  "lenInv g \<Longrightarrow> rootsComparisons ds g \<le> length (allEntries ds) * length (edges (buildRoots ds g))"
proof (induction ds arbitrary: g)
  case Nil
  show ?case by simp
next
  case (Cons e ds)
  obtain name dep where e: "e = (name, dep)" by (cases e)
  let ?id = "createKey name (dn_version dep)"
  let ?g0 = "g\<lparr>roots := roots g @ [?id]\<rparr>"
  let ?g1 = "buildNodeRecursive dep ?id 0 None ?g0 False"
  let ?g2 = "buildRoots ds ?g1"
  have l0: "lenInv ?g0" using Cons.prems by (simp add: lenInv_def)
  have a: "depComparisons dep ?id 0 None ?g0 False \<le> Suc (length (depEntries dep)) * length (edges ?g1)"
    by (rule comparisons_bound(1) [OF l0])
  have b: "rootsComparisons ds ?g1 \<le> length (allEntries ds) * length (edges ?g2)"
    by (rule Cons.IH [OF build_lenInv(1) [OF l0]])
  have "length (edges ?g1) \<le> length (edges ?g2)" by (rule buildRoots_edges_grow)
  then have "Suc (length (depEntries dep)) * length (edges ?g1)
      \<le> Suc (length (depEntries dep)) * length (edges ?g2)"
    by (rule mult_le_mono2)
  with a b have "depComparisons dep ?id 0 None ?g0 False + rootsComparisons ds ?g1
      \<le> Suc (length (depEntries dep)) * length (edges ?g2)
        + length (allEntries ds) * length (edges ?g2)" by linarith
  then show ?case by (simp add: e Let_def algebra_simps)
qed

lemma edges_length:
  "length (depEdges parentId dep) = length (depEntries dep)"
  "length (childEdges parentId cs) = length (allEntries cs)"
  by (induction parentId dep and parentId cs rule: depEdges_childEdges.induct)
     (auto split: option.splits)

lemma treeEdges_le_size: "length (treeEdges t) \<le> treeSize t"
proof -
  have "length (concat (map (\<lambda>e. depEdges (entryKey e) (snd e)) ds)) \<le> length (allEntries ds)"
    for ds :: "(string \<times> DependencyNode) list"
    by (induction ds) (auto simp: edges_length)
  then show ?thesis by (simp add: treeEdges_def treeSize_def)
qed

lemma treeComparisons_bound: "treeComparisons t \<le> treeSize t * treeSize t"
proof -
  have "lenInv \<lparr>nodes = [], edges = [], roots = []\<rparr>" by (simp add: lenInv_def)
  then have "treeComparisons t \<le> treeSize t * length (edges (buildGraph t))"
    unfolding treeComparisons_def treeSize_def buildGraph_def by (rule rootsComparisons_bound)
  also have "\<dots> \<le> treeSize t * treeSize t"
    by (simp add: buildGraph_edges treeEdges_le_size)
  finally show ?thesis .
qed


subsection \<open>The time on a star\<close>

lemma addNode_other:
  "nodeId \<noteq> p \<Longrightarrow> map_of (nodes (addNode dep nodeId depth parent g isDev)) p = map_of (nodes g) p"
  by (simp add: addNode_def update_conv')

lemma visitNode_parent_children:
  assumes "p \<noteq> []" "nodeId \<noteq> p" "map_of (nodes g) p = Some pn"
  shows "map_of (nodes (visitNode dep nodeId depth (Some p) g isDev)) p
     = Some (pn\<lparr>gn_children := (if nodeId \<in> set (gn_children pn) then gn_children pn
                                   else gn_children pn @ [nodeId])\<rparr>)"
  using assms unfolding visitNode_def addEdge_def
  by (simp add: addNode_other update_conv')

lemma leaves_comparisons:
  assumes "map_of (nodes g) p = Some pn" and "p \<noteq> []"
    and "\<forall>e \<in> set cs. dn_dependencies (snd e) = None"
    and "distinct (map entryKey cs)"
    and "set (map entryKey cs) \<inter> set (gn_children pn) = {}"
    and "p \<notin> set (map entryKey cs)"
  shows "childrenComparisons cs p depth g isDev = (\<Sum>j<length cs. length (gn_children pn) + j)"
  using assms
proof (induction cs arbitrary: g pn)
  case Nil
  show ?case by simp
next
  case (Cons e rest)
  obtain key d where e: "e = (key, d)" by (cases e)
  from Cons.prems(3) e obtain name version resolved where
    d: "d = DependencyNode name version resolved None" by (cases d) auto
  let ?id = "createKey key (dn_version d)"
  have id: "?id = entryKey e" by (simp add: e entryKey_def)
  from Cons.prems(5,6) id have new: "?id \<notin> set (gn_children pn)" "?id \<noteq> p" by auto
  let ?g1 = "buildNodeRecursive d ?id (depth + 1) (Some p) g isDev"
  have g1: "?g1 = visitNode d ?id (depth + 1) (Some p) g isDev" by (simp add: d)
  have first: "depComparisons d ?id (depth + 1) (Some p) g isDev = length (gn_children pn)"
    using Cons.prems(1,2) new
    by (simp add: d visitComparisons_def addNode_other includesSteps_absent)
  let ?pn1 = "pn\<lparr>gn_children := gn_children pn @ [?id]\<rparr>"
  have p1: "map_of (nodes ?g1) p = Some ?pn1"
    unfolding g1 using visitNode_parent_children [OF Cons.prems(2) new(2) Cons.prems(1)] new(1)
    by simp
  have "childrenComparisons rest p depth ?g1 isDev
      = (\<Sum>j<length rest. length (gn_children ?pn1) + j)"
  proof (rule Cons.IH [OF p1 Cons.prems(2)])
    show "\<forall>e \<in> set rest. dn_dependencies (snd e) = None" using Cons.prems(3) by simp
    show "distinct (map entryKey rest)" using Cons.prems(4) by simp
    show "set (map entryKey rest) \<inter> set (gn_children ?pn1) = {}"
      using Cons.prems(4,5) id by auto
    show "p \<notin> set (map entryKey rest)" using Cons.prems(6) by simp
  qed
  then have r: "childrenComparisons rest p depth ?g1 isDev
      = (\<Sum>j<length rest. length (gn_children pn) + Suc j)" by simp
  have "childrenComparisons (e # rest) p depth g isDev
      = length (gn_children pn) + (\<Sum>j<length rest. length (gn_children pn) + Suc j)"
    unfolding e childrenComparisons.simps first r ..
  also have "\<dots> = (\<Sum>j<length (e # rest). length (gn_children pn) + j)"
    by (simp add: sum.lessThan_Suc_shift del: sum.lessThan_Suc)
  finally show ?case .
qed

lemma starChild_key: "entryKey (starChild i) = replicate (Suc i) CHR ''c'' @ ''@1''"
  by (simp add: starChild_def entryKey_def createKey_def)

lemma starChild_keys_distinct: "distinct (map entryKey (map starChild [i..<n]))"
proof -
  have "inj_on (\<lambda>i. entryKey (starChild i)) A" for A
  proof (rule inj_onI)
    fix x y assume "entryKey (starChild x) = entryKey (starChild y)"
    then have "length (entryKey (starChild x)) = length (entryKey (starChild y))" by simp
    then show "x = y" by (simp add: starChild_key)
  qed
  then show ?thesis by (simp add: distinct_map comp_def)
qed

lemma starTree_comparisons: "treeComparisons (starTree n) = (\<Sum>j<n. j)"
proof -
  let ?r = "DependencyNode ''r'' ''1'' [] (Some (map starChild [0..<n]))"
  let ?g0 = "\<lparr>nodes = [], edges = [], roots = [] @ [createKey ''r'' ''1'']\<rparr>"
  let ?g1 = "visitNode ?r (createKey ''r'' ''1'') 0 None ?g0 False"
  let ?pn = "\<lparr>gn_id = createKey ''r'' ''1'', gn_name = ''r'', gn_version = ''1'', gn_depth = 0,
              gn_parent = None, gn_children = [], gn_vulnerabilities = 0,
              gn_isDevDependency = False\<rparr>"
  have pn: "map_of (nodes ?g1) (createKey ''r'' ''1'') = Some ?pn"
    by (simp add: visitNode_def addNode_def addEdge_def)
  have "childrenComparisons (map starChild [0..<n]) (createKey ''r'' ''1'') 0 ?g1 False
      = (\<Sum>j<length (map starChild [0..<n]). length (gn_children ?pn) + j)"
  proof (rule leaves_comparisons [OF pn createKey_nonempty])
    show "\<forall>e \<in> set (map starChild [0..<n]). dn_dependencies (snd e) = None"
      by (auto simp: starChild_def)
    show "distinct (map entryKey (map starChild [0..<n]))" by (rule starChild_keys_distinct)
    show "set (map entryKey (map starChild [0..<n])) \<inter> set (gn_children ?pn) = {}" by simp
    show "createKey ''r'' ''1'' \<notin> set (map entryKey (map starChild [0..<n]))"
      by (auto simp: starChild_key createKey_def)
  qed
  then have "childrenComparisons (map starChild [0..<n]) (createKey ''r'' ''1'') 0 ?g1 False
      = (\<Sum>j<n. j)" by simp
  then show ?thesis
    by (simp add: treeComparisons_def starTree_def Let_def visitComparisons_def)
qed

lemma starTree_size: "treeSize (starTree n) = Suc n"
proof -
  have "\<forall>e \<in> set cs. dn_dependencies (snd e) = None \<Longrightarrow> allEntries cs = cs"
    for cs :: "(string \<times> DependencyNode) list"
  proof (induction cs)
    case Nil
    show ?case by simp
  next
    case (Cons e cs)
    obtain key d where e: "e = (key, d)" by (cases e)
    with Cons.prems have "depEntries d = []" by (cases d) simp
    with Cons e show ?case by simp
  qed
  then have "allEntries (map starChild [0..<n]) = map starChild [0..<n]"
    by (simp add: starChild_def)
  then show ?thesis by (simp add: treeSize_def starTree_def)
qed

lemma gauss_twice: "2 * (\<Sum>j<n. j) = n * (n - 1)" for n :: nat
proof (induction n)
  case 0
  show ?case by simp
next
  case (Suc n)
  then show ?case by (cases n) (simp_all add: algebra_simps)
qed

lemma buildTime_not_linear: "\<not> (\<exists>c. \<forall>t. buildTime t \<le> c * treeSize t)"
proof
  assume "\<exists>c. \<forall>t. buildTime t \<le> c * treeSize t"
  then obtain c where c: "\<And>t. buildTime t \<le> c * treeSize t" by blast
  let ?n = "2 * c + 3"
  from c [of "starTree ?n"] have "Suc ?n + (\<Sum>j<?n. j) \<le> c * Suc ?n"
    by (simp add: buildTime_eq starTree_size starTree_comparisons)
  then have "2 * Suc ?n + 2 * (\<Sum>j<?n. j) \<le> 2 * (c * Suc ?n)" by simp
  then have "2 * Suc ?n + ?n * (?n - 1) \<le> 2 * (c * Suc ?n)" by (simp only: gauss_twice)
  moreover have "?n * (?n - 1) = (2 * c + 3) * (2 * c + 2)" by simp
  ultimately have "2 * Suc ?n + (2 * c + 3) * (2 * c + 2) \<le> 2 * (c * Suc ?n)" by simp
  then show False by (simp add: algebra_simps)
qed


text \<open>
  Claim C9, amended. A dependency tree is a value of the datatype, hence finite and
  free of cycles. On every such tree the builder terminates: on a call stack that admits
  the depth of the tree (which is at most its size) it returns the graph of \<open>buildGraph\<close>
  after exactly one call of \<^verbatim>\<open>buildNodeRecursive\<close> per entry of the tree, and on a
  smaller stack it raises \<^verbatim>\<open>RangeError\<close>. Besides the calls it makes the comparisons
  of the scans of the parents' children lists, which are at most the square of the size
  of the tree; the star of \<open>n\<close> children has size \<open>n + 1\<close> and takes \<open>n (n - 1) / 2\<close> of
  them, so that the time is quadratic in the size of the tree in the worst case.
\<close>

theorem buildGraph_terminates:
  "buildGraphM stack t
     = (if treeDepth t \<le> stack
        then Inr (buildGraph t, \<lparr>m_calls = treeSize t, m_comparisons = treeComparisons t\<rparr>)
        else Inl RangeError)
   \<and> treeDepth t \<le> treeSize t
   \<and> treeComparisons t \<le> treeSize t * treeSize t
   \<and> treeSize (starTree n) = Suc n
   \<and> 2 * treeComparisons (starTree n) = n * (n - 1)"
proof (intro conjI)
  show "buildGraphM stack t
     = (if treeDepth t \<le> stack
        then Inr (buildGraph t, \<lparr>m_calls = treeSize t, m_comparisons = treeComparisons t\<rparr>)
        else Inl RangeError)"
    by (rule buildGraphM_result)
  show "treeDepth t \<le> treeSize t"
    unfolding treeDepth_def treeSize_def by (rule depth_le_size(2))
  show "treeComparisons t \<le> treeSize t * treeSize t"
    by (rule treeComparisons_bound)
  show "treeSize (starTree n) = Suc n" by (rule starTree_size)
  show "2 * treeComparisons (starTree n) = n * (n - 1)"
    by (simp only: starTree_comparisons gauss_twice)
qed

text \<open>
  Claim C9 as stated has the builder complete in time proportional to the size of the
  tree. The star of four children has size 5 and takes 5 calls and 0 + 1 + 2 + 3
  comparisons; the star of eight has size 9 and takes 9 calls and 28 comparisons; and no
  constant bounds the time of every tree by that multiple of its size, since a star of
  \<open>n\<close> children takes \<open>n (n - 1) / 2\<close> comparisons.
\<close>

theorem buildGraph_time_counterexample:
  "treeSize starTree4 = 5 \<and> buildTime starTree4 = 11
   \<and> treeSize (starTree 8) = 9 \<and> buildTime (starTree 8) = 37
   \<and> \<not> (\<exists>c. \<forall>t. buildTime t \<le> c * treeSize t)"
proof -
  have "treeSize starTree4 = 5" "buildTime starTree4 = 11"
    "treeSize (starTree 8) = 9" "buildTime (starTree 8) = 37"
    by code_simp+
  with buildTime_not_linear show ?thesis by blast
qed

end
